theory Spec2Isabelle
  imports Complex_Main "HOL-Library.Sublist"
begin

section \<open>Python string operations used by the worker\<close>

text \<open>
  The worker of \<^verbatim>\<open>main.pyw\<close> works on Python \<^verbatim>\<open>str\<close> values with
  \<^verbatim>\<open>endswith\<close>, \<^verbatim>\<open>rsplit\<close>, \<^verbatim>\<open>replace\<close>, the \<^verbatim>\<open>in\<close> test and f-strings.
  Strings are character lists here; every operation is a function that computes what the
  Python method returns.
\<close>

text \<open>\<^verbatim>\<open>s.endswith(suf)\<close>.\<close>

definition endswith :: "string \<Rightarrow> string \<Rightarrow> bool" where
  "endswith s suf = (length suf \<le> length s \<and> drop (length s - length suf) s = suf)"

text \<open>\<^verbatim>\<open>s.endswith((suf1, suf2, ...))\<close>: true when one of the suffixes matches.\<close>

definition endswith_any :: "string \<Rightarrow> string list \<Rightarrow> bool" where
  "endswith_any s sufs = list_ex (endswith s) sufs"

text \<open>
  \<^verbatim>\<open>s.rsplit(sep, 1)\<close> for a one-character separator: the string is cut at the last
  occurrence of the separator; without an occurrence the result is \<^verbatim>\<open>[s]\<close>.
\<close>

definition rsplit1 :: "string \<Rightarrow> char \<Rightarrow> string list" where
  "rsplit1 s sep =
     (if sep \<in> set s
      then [rev (tl (dropWhile (\<lambda>c. c \<noteq> sep) (rev s))),
            rev (takeWhile (\<lambda>c. c \<noteq> sep) (rev s))]
      else [s])"

text \<open>\<^verbatim>\<open>sub in s\<close>: \<open>sub\<close> occurs in \<open>s\<close> as a contiguous piece.\<close>

fun contains :: "string \<Rightarrow> string \<Rightarrow> bool" where
  "contains [] sub = (sub = [])"
| "contains (c # cs) sub = (prefix sub (c # cs) \<or> contains cs sub)"

text \<open>
  \<^verbatim>\<open>s.replace(old, new)\<close>: the occurrences of \<open>old\<close> are found from the left, without
  overlap, and each is replaced by \<open>new\<close>. For an empty \<open>old\<close> Python puts \<open>new\<close> before
  every character and at the end.
\<close>

fun replace_from :: "string \<Rightarrow> string \<Rightarrow> string \<Rightarrow> string" where
  "replace_from [] old new = []"
| "replace_from (c # cs) old new =
     (if old \<noteq> [] \<and> prefix old (c # cs)
      then new @ replace_from (drop (length old) (c # cs)) old new
      else c # replace_from cs old new)"

definition replace :: "string \<Rightarrow> string \<Rightarrow> string \<Rightarrow> string" where
  "replace s old new =
     (if old = [] then new @ concat (map (\<lambda>c. c # new) s) else replace_from s old new)"

text \<open>\<^verbatim>\<open>sep.join(parts)\<close>, used to state what \<open>replace\<close> keeps.\<close>

fun str_join :: "string \<Rightarrow> string list \<Rightarrow> string" where
  "str_join sep [] = []"
| "str_join sep [x] = x"
| "str_join sep (x # y # zs) = x @ sep @ str_join sep (y # zs)"

text \<open>\<^verbatim>\<open>str(n)\<close> for an integer, as the f-strings of the log lines render it.\<close>

definition digit_char :: "nat \<Rightarrow> char" where
  "digit_char d = ''0123456789'' ! (d mod 10)"

function str_nat :: "nat \<Rightarrow> string" where
  "str_nat n = (if n < 10 then [digit_char n] else str_nat (n div 10) @ [digit_char (n mod 10)])"
  by pat_completeness auto
termination
  by (relation "measure id") auto

definition str_int :: "int \<Rightarrow> string" where
  "str_int i = (if i < 0 then CHR ''-'' # str_nat (nat (- i)) else str_nat (nat i))"

section \<open>The derived PDF name\<close>

text \<open>
  Lines 46 to 51 of \<^verbatim>\<open>convert_files\<close>:
  \<^verbatim>\<open>
  if file_name.endswith((".xls", ".xlsx")):
      pdf_name = file_name.rsplit('.', 1)[0] + ".pdf"
  else:
      pdf_name = file_name + ".pdf"
  \<close>
\<close>

definition pdf_name_of :: "string \<Rightarrow> string" where
  "pdf_name_of file_name =
     (if endswith_any file_name [''.xls'', ''.xlsx'']
      then (rsplit1 file_name CHR ''.'') ! 0 @ ''.pdf''
      else file_name @ ''.pdf'')"

section \<open>The progress percentage\<close>

text \<open>
  Line 85 computes \<^verbatim>\<open>int((processed_files / total_files) * 100)\<close>. In Python \<^verbatim>\<open>/\<close> on two
  integers is true division: it raises \<^verbatim>\<open>ZeroDivisionError\<close> for a zero divisor and otherwise
  returns the binary64 value nearest to the exact quotient, ties to even. The product with
  \<^verbatim>\<open>100\<close> is rounded the same way, and \<^verbatim>\<open>int\<close> truncates towards zero. The binary64 values
  are modelled as the rationals they denote; the rounding below is the one of the normal
  range (53 significant bits, no bound on the exponent), which holds every quotient of two
  list lengths.
\<close>

datatype py_error = ZeroDivisionError

text \<open>Rounding a rational to the nearest integer, a tie to the even neighbour.\<close>

definition round_half_even :: "rat \<Rightarrow> int" where
  "round_half_even x =
     (let f = \<lfloor>x\<rfloor>; d = x - of_int f
      in if d < 1 / 2 then f else if 1 / 2 < d then f + 1 else if even f then f else f + 1)"

text \<open>
  The binary exponent of a positive rational \<open>q\<close>: the \<open>e\<close> with \<open>2^e \<le> q < 2^(e+1)\<close>,
  found by halving a value of at least 2 and doubling a value below 1.
\<close>

function halvings :: "rat \<Rightarrow> nat" where
  "halvings q = (if q < 2 then 0 else Suc (halvings (q / 2)))"
  by pat_completeness auto
termination
  by (relation "measure (\<lambda>q. nat \<lfloor>q\<rfloor>)") (auto simp: not_less, linarith)

function doublings :: "rat \<Rightarrow> nat" where
  "doublings q = (if q \<le> 0 \<or> 1 \<le> q then 0 else Suc (doublings (2 * q)))"
  by pat_completeness auto
termination
proof (relation "measure (\<lambda>q. nat \<lfloor>1 / q\<rfloor>)")
  show "wf (measure (\<lambda>q::rat. nat \<lfloor>1 / q\<rfloor>))" by simp
next
  fix q :: rat
  assume a: "\<not> (q \<le> 0 \<or> 1 \<le> q)"
  define y where "y = 1 / q"
  have y: "1 < y" using a by (simp add: y_def not_le)
  have "\<lfloor>y / 2\<rfloor> < \<lfloor>y\<rfloor>"
  proof (rule ccontr)
    assume "\<not> \<lfloor>y / 2\<rfloor> < \<lfloor>y\<rfloor>"
    then have "\<lfloor>y\<rfloor> \<le> \<lfloor>y / 2\<rfloor>" by simp
    then have "of_int \<lfloor>y\<rfloor> \<le> y / 2" by (meson le_floor_iff)
    moreover have "y < of_int \<lfloor>y\<rfloor> + 1" by linarith
    moreover have "1 \<le> (of_int \<lfloor>y\<rfloor> :: rat)" using y
      by (metis le_floor_iff less_imp_le of_int_1 of_int_le_iff)
    ultimately show False by linarith
  qed
  moreover have "0 < \<lfloor>y\<rfloor>" using y by linarith
  ultimately show "(2 * q, q) \<in> measure (\<lambda>q. nat \<lfloor>1 / q\<rfloor>)"
    by (simp add: y_def field_simps)
qed

declare halvings.simps [simp del] doublings.simps [simp del]

definition floor_log2 :: "rat \<Rightarrow> int" where
  "floor_log2 q = (if 1 \<le> q then int (halvings q) else - int (doublings q))"

text \<open>
  The nearest binary64 value: the value is scaled so that its integer part has 53 bits,
  rounded to an integer, and scaled back.
\<close>

definition float_round :: "rat \<Rightarrow> rat" where
  "float_round q =
     (if q = 0 then 0
      else let u = 2 powi (floor_log2 \<bar>q\<bar> - 52)
           in sgn q * of_int (round_half_even (\<bar>q\<bar> / u)) * u)"

text \<open>\<^verbatim>\<open>a / b\<close> on integers, \<^verbatim>\<open>x * y\<close> on floats, and \<^verbatim>\<open>int(x)\<close>.\<close>

definition py_truediv :: "int \<Rightarrow> int \<Rightarrow> py_error + rat" where
  "py_truediv a b =
     (if b = 0 then Inl ZeroDivisionError else Inr (float_round (of_int a / of_int b)))"

definition float_mul :: "rat \<Rightarrow> rat \<Rightarrow> rat" where
  "float_mul x y = float_round (x * y)"

definition int_of_float :: "rat \<Rightarrow> int" where
  "int_of_float x = (if 0 \<le> x then \<lfloor>x\<rfloor> else \<lceil>x\<rceil>)"

text \<open>\<^verbatim>\<open>progress_percent = int((processed_files / total_files) * 100)\<close>.\<close>

definition progress_percent :: "nat \<Rightarrow> nat \<Rightarrow> py_error + int" where
  "progress_percent processed_files total_files =
     (case py_truediv (int processed_files) (int total_files) of
        Inl e \<Rightarrow> Inl e
      | Inr x \<Rightarrow> Inr (int_of_float (float_mul x 100)))"

section \<open>The conversion worker\<close>

subsection \<open>What a run does: signals and calls\<close>

text \<open>
  A run of \<^verbatim>\<open>ConversionWorker.convert_files\<close> is observed through the signals it emits and
  the calls it makes on its surroundings, in the order of the source: COM start-up and
  shut-down, the automation calls on the spreadsheet application, \<^verbatim>\<open>os.chmod\<close>,
  \<^verbatim>\<open>os.rename\<close>, \<^verbatim>\<open>time.sleep\<close>, \<^verbatim>\<open>logging.error\<close>, and each read of the cancellation flag
  with the value read.
\<close>

datatype event =
    CoInitialize
  | Dispatch string
  | SetVisible bool
  | IsCancelled bool
  | Chmod string
  | LoggingError string
  | ProgressUpdate string
  | Progress int
  | ConversionComplete string
  | WorkbooksOpen string
  | ExportAsFixedFormat string
  | WorkbookClose
  | Sleep nat
  | Quit
  | CoUninitialize
  | OsRename string string

text \<open>
  One conversion attempt is the call sequence \<^verbatim>\<open>Workbooks.Open\<close>,
  \<^verbatim>\<open>ExportAsFixedFormat\<close>, \<^verbatim>\<open>Close\<close>; each of the three may raise, with the text of the
  exception.
\<close>

datatype attempt_result =
    Converted
  | OpenRaises string
  | ExportRaises string
  | CloseRaises string

datatype os_error = FileNotFoundError | FileExistsError | PermissionError

text \<open>
  The surroundings of a run. The worker and the window share one flag; the window's thread
  may call \<^verbatim>\<open>cancel_conversion\<close> at any moment, and the worker notices at its next read of
  the flag: \<open>cancel_requested n\<close> says that the call has come in when the worker reads
  the flag for the \<open>n\<close>-th time (counted from 0). \<open>engine n file\<close> is what the \<open>n\<close>-th
  conversion attempt of the run does on \<open>file\<close>. \<open>chmod_raises file\<close> is the text of the
  exception of \<^verbatim>\<open>os.chmod(file, 0o600)\<close>, if it raises. The three \<^verbatim>\<open>os.path\<close> functions of
  the platform are taken as they are; \<open>file_of path\<close> is the file a path string denotes,
  so that two spellings of one path are one file; \<open>rename_denied src dst\<close> says that
  \<^verbatim>\<open>os.rename(src, dst)\<close> is refused for a reason the set of files present does not decide
  (the file is open in another program, the directory is read-only), the same at every
  moment of the run; \<open>strerror\<close> renders an exception of \<^verbatim>\<open>os.rename\<close>.
\<close>

record env =
  cancel_requested :: "nat \<Rightarrow> bool"
  engine :: "nat \<Rightarrow> string \<Rightarrow> attempt_result"
  chmod_raises :: "string \<Rightarrow> string option"
  os_path_basename :: "string \<Rightarrow> string"
  os_path_join :: "string \<Rightarrow> string \<Rightarrow> string"
  os_path_normpath :: "string \<Rightarrow> string"
  file_of :: "string \<Rightarrow> string"
  rename_denied :: "string \<Rightarrow> string \<Rightarrow> bool"
  strerror :: "os_error \<Rightarrow> string \<Rightarrow> string \<Rightarrow> string"

text \<open>
  The fields the constructor \<^verbatim>\<open>__init__(self, files, output_dir, retries=3)\<close> sets and
  the run never changes.
\<close>

record worker =
  files :: "string list"
  output_dir :: "string"
  retries :: int

definition ConversionWorker :: "string list \<Rightarrow> string \<Rightarrow> worker" where
  "ConversionWorker fs dir = \<lparr>files = fs, output_dir = dir, retries = 3\<rparr>"

text \<open>
  What a run changes: the flag, the list \<^verbatim>\<open>saved_pdf_paths\<close>, the local counter
  \<^verbatim>\<open>processed_files\<close>, and the files on disk. \<open>reads\<close> and \<open>attempts\<close> count the reads of
  the flag and the conversion attempts made so far; they index the surroundings.
\<close>

record state =
  cancelled :: bool
  saved_pdf_paths :: "string list"
  processed_files :: nat
  disk :: "string set"
  reads :: nat
  attempts :: nat

text \<open>The state after \<^verbatim>\<open>__init__\<close>, on a given disk.\<close>

definition init_state :: "string set \<Rightarrow> state" where
  "init_state d =
     \<lparr>cancelled = False, saved_pdf_paths = [], processed_files = 0, disk = d,
      reads = 0, attempts = 0\<rparr>"

subsection \<open>The cancellation flag\<close>

definition cancel_conversion :: "state \<Rightarrow> state" where
  "cancel_conversion s = s\<lparr>cancelled := True\<rparr>"

text \<open>
  \<^verbatim>\<open>is_cancelled\<close> returns the flag. A call of \<^verbatim>\<open>cancel_conversion\<close> that has come in
  since the last read is applied first.
\<close>

definition is_cancelled :: "env \<Rightarrow> state \<Rightarrow> bool \<times> state" where
  "is_cancelled E s =
     (let s1 = (if cancel_requested E (reads s) then cancel_conversion s else s)
      in (cancelled s1, s1\<lparr>reads := reads s1 + 1\<rparr>))"

subsection \<open>The files on disk\<close>

text \<open>
  The disk is the set of files present. \<^verbatim>\<open>os.rename\<close> is the one of Windows, the platform
  of the automation interface: it raises when the source is missing, when the rename is
  refused, and when the destination exists; a rename of a file onto itself changes
  nothing.
\<close>

definition os_path_exists :: "env \<Rightarrow> string set \<Rightarrow> string \<Rightarrow> bool" where
  "os_path_exists E d path = (file_of E path \<in> d)"

definition os_rename :: "env \<Rightarrow> string set \<Rightarrow> string \<Rightarrow> string \<Rightarrow> os_error + string set" where
  "os_rename E d src dst =
     (if file_of E src \<notin> d then Inl FileNotFoundError
      else if rename_denied E src dst then Inl PermissionError
      else if file_of E dst = file_of E src then Inr d
      else if file_of E dst \<in> d then Inl FileExistsError
      else Inr (insert (file_of E dst) (d - {file_of E src})))"

subsection \<open>The log lines\<close>

definition msg_cancelled_by_user :: string where
  "msg_cancelled_by_user = ''Conversion cancelled by user.''"

definition msg_attempting :: "int \<Rightarrow> int \<Rightarrow> string \<Rightarrow> string" where
  "msg_attempting attempt n file_name =
     ''Attempting conversion ('' @ str_int attempt @ ''/'' @ str_int n @ '') for: '' @ file_name"

definition msg_converted :: "string \<Rightarrow> string \<Rightarrow> string" where
  "msg_converted file_name pdf_path =
     ''Successfully converted: '' @ file_name @ '' to PDF at '' @ pdf_path"

definition msg_attempt_failed :: "int \<Rightarrow> string \<Rightarrow> string \<Rightarrow> string" where
  "msg_attempt_failed attempt file_name e =
     ''Attempt '' @ str_int attempt @ '': Failed to convert '' @ file_name @ '' - '' @ e"

definition msg_attempt_error :: "int \<Rightarrow> string \<Rightarrow> string \<Rightarrow> string" where
  "msg_attempt_error attempt file_name e =
     ''Attempt '' @ str_int attempt @ '': Error converting '' @ file_name @ '' - '' @ e"

definition msg_failed :: "string \<Rightarrow> int \<Rightarrow> string" where
  "msg_failed file_name n =
     ''Failed to convert '' @ file_name @ '' after '' @ str_int n @ '' attempts.''"

definition msg_permissions :: "string \<Rightarrow> string \<Rightarrow> string" where
  "msg_permissions file e = ''Failed to reset permissions for '' @ file @ '' - '' @ e"

definition msg_renamed :: "string \<Rightarrow> string \<Rightarrow> string" where
  "msg_renamed original_pdf_name new_pdf_name =
     ''Renamed '' @ original_pdf_name @ '' to '' @ new_pdf_name"

definition msg_not_found :: "string \<Rightarrow> string" where
  "msg_not_found original_pdf_name = ''File not found for renaming: '' @ original_pdf_name"

definition msg_rename_failed :: "string \<Rightarrow> string \<Rightarrow> string" where
  "msg_rename_failed original_pdf_name e =
     ''Failed to rename '' @ original_pdf_name @ '': '' @ e"

definition msg_cancelled :: string where
  "msg_cancelled = ''Conversion cancelled.''"

definition msg_all_processed :: string where
  "msg_all_processed = ''All files processed.''"

subsection \<open>One file\<close>

text \<open>\<^verbatim>\<open>reset_permissions\<close>: the exception of \<^verbatim>\<open>os.chmod\<close> is logged and dropped.\<close>

definition reset_permissions :: "env \<Rightarrow> string \<Rightarrow> event list" where
  "reset_permissions E file =
     (case chmod_raises E file of
        None \<Rightarrow> [Chmod file]
      | Some e \<Rightarrow> [Chmod file, LoggingError (msg_permissions file e)])"

text \<open>The \<^verbatim>\<open>except\<close> branch of an attempt: two log lines and the sleep of one second.\<close>

definition attempt_failed :: "int \<Rightarrow> string \<Rightarrow> string \<Rightarrow> event list" where
  "attempt_failed attempt file_name e =
     [LoggingError (msg_attempt_failed attempt file_name e),
      ProgressUpdate (msg_attempt_error attempt file_name e),
      Sleep 1]"

text \<open>
  The \<^verbatim>\<open>try\<close> statement of lines 62 to 78, one attempt. The result says whether the
  attempt succeeded. An export that returned has written the PDF, also when the
  \<^verbatim>\<open>Close\<close> after it raises.
\<close>

definition try_convert ::
  "env \<Rightarrow> worker \<Rightarrow> string \<Rightarrow> string \<Rightarrow> string \<Rightarrow> int \<Rightarrow> state \<Rightarrow> bool \<times> state \<times> event list"
where
  "try_convert E W file file_name pdf_path attempt s =
     (let s1 = s\<lparr>attempts := attempts s + 1\<rparr>;
          written = s1\<lparr>disk := insert (file_of E pdf_path) (disk s1)\<rparr>;
          start = ProgressUpdate (msg_attempting attempt (retries W) file_name)
      in case engine E (attempts s) file of
           Converted \<Rightarrow>
             (True,
              written\<lparr>saved_pdf_paths := saved_pdf_paths written @ [pdf_path]\<rparr>,
              [start, WorkbooksOpen file, ExportAsFixedFormat pdf_path, WorkbookClose,
               ProgressUpdate (msg_converted file_name pdf_path)])
         | OpenRaises e \<Rightarrow>
             (False, s1,
              [start, WorkbooksOpen file] @ attempt_failed attempt file_name e)
         | ExportRaises e \<Rightarrow>
             (False, s1,
              [start, WorkbooksOpen file, ExportAsFixedFormat pdf_path]
                @ attempt_failed attempt file_name e)
         | CloseRaises e \<Rightarrow>
             (False, written,
              [start, WorkbooksOpen file, ExportAsFixedFormat pdf_path, WorkbookClose]
                @ attempt_failed attempt file_name e))"

text \<open>
  The loop \<^verbatim>\<open>for attempt in range(1, self.retries + 1)\<close> of lines 58 to 78, over the
  attempt numbers still to come: it breaks when the flag is set and after a success.
\<close>

fun retry_loop ::
  "env \<Rightarrow> worker \<Rightarrow> string \<Rightarrow> string \<Rightarrow> string \<Rightarrow> int list \<Rightarrow> state \<Rightarrow> bool \<times> state \<times> event list"
where
  "retry_loop E W file file_name pdf_path [] s = (False, s, [])"
| "retry_loop E W file file_name pdf_path (attempt # rest) s =
     (let (c, s1) = is_cancelled E s
      in if c then (False, s1, [IsCancelled True])
         else
           (let (success, s2, evs) = try_convert E W file file_name pdf_path attempt s1
            in if success then (True, s2, IsCancelled False # evs)
               else
                 (let (success', s3, evs') = retry_loop E W file file_name pdf_path rest s2
                  in (success', s3, IsCancelled False # evs @ evs'))))"

text \<open>The derived output path of lines 46 to 54.\<close>

definition pdf_path_of :: "env \<Rightarrow> worker \<Rightarrow> string \<Rightarrow> string" where
  "pdf_path_of E W file =
     os_path_normpath E
       (os_path_join E (output_dir W) (pdf_name_of (os_path_basename E file)))"

text \<open>
  Lines 80 and 81: \<^verbatim>\<open>if not success and not self.is_cancelled()\<close>. The flag is read only
  after a failure.
\<close>

definition report_failure ::
  "env \<Rightarrow> worker \<Rightarrow> string \<Rightarrow> bool \<Rightarrow> state \<Rightarrow> state \<times> event list"
where
  "report_failure E W file_name success s =
     (if success then (s, [])
      else
        (let (c, s1) = is_cancelled E s
         in if c then (s1, [IsCancelled True])
            else (s1, [IsCancelled False, ProgressUpdate (msg_failed file_name (retries W))])))"

text \<open>
  Lines 83 to 86: the file is counted and the percentage emitted unless the flag is set.
  The division raises for a total of zero.
\<close>

definition count_processed ::
  "env \<Rightarrow> nat \<Rightarrow> state \<Rightarrow> py_error + state \<times> event list"
where
  "count_processed E total_files s =
     (let (c, s1) = is_cancelled E s
      in if c then Inr (s1, [IsCancelled True])
         else
           (let s2 = s1\<lparr>processed_files := processed_files s1 + 1\<rparr>
            in case progress_percent (processed_files s2) total_files of
                 Inl e \<Rightarrow> Inl e
               | Inr v \<Rightarrow> Inr (s2, [IsCancelled False, Progress v])))"

text \<open>The body of the loop over the files, lines 46 to 86, after the check of line 42.\<close>

definition convert_file ::
  "env \<Rightarrow> worker \<Rightarrow> nat \<Rightarrow> string \<Rightarrow> state \<Rightarrow> py_error + state \<times> event list"
where
  "convert_file E W total_files file s =
     (let file_name = os_path_basename E file;
          pdf_path = pdf_path_of E W file;
          (success, s1, evs1) =
             retry_loop E W file file_name pdf_path [1..retries W] s;
          (s2, evs2) = report_failure E W file_name success s1
      in case count_processed E total_files s2 of
           Inl e \<Rightarrow> Inl e
         | Inr (s3, evs3) \<Rightarrow> Inr (s3, reset_permissions E file @ evs1 @ evs2 @ evs3))"

subsection \<open>The loop over the files\<close>

text \<open>
  \<^verbatim>\<open>for file in self.files\<close>, lines 41 to 86: the loop breaks at the first file before
  which the flag is set.
\<close>

fun files_loop ::
  "env \<Rightarrow> worker \<Rightarrow> nat \<Rightarrow> string list \<Rightarrow> state \<Rightarrow> py_error + state \<times> event list"
where
  "files_loop E W total_files [] s = Inr (s, [])"
| "files_loop E W total_files (file # rest) s =
     (let (c, s1) = is_cancelled E s
      in if c then Inr (s1, [IsCancelled True, ProgressUpdate msg_cancelled_by_user])
         else
           (case convert_file E W total_files file s1 of
              Inl e \<Rightarrow> Inl e
            | Inr (s2, evs) \<Rightarrow>
                (case files_loop E W total_files rest s2 of
                   Inl e \<Rightarrow> Inl e
                 | Inr (s3, evs') \<Rightarrow> Inr (s3, IsCancelled False # evs @ evs'))))"

subsection \<open>Finalization of the file names\<close>

text \<open>
  \<^verbatim>\<open>finalize_filenames\<close>, lines 98 to 114, for one recorded path: the new name is the
  base name with \<^verbatim>\<open>%20\<close> replaced by a space; when the recorded path differs from the new
  name joined to the output directory, the file is renamed if it exists. The event
  \<open>OsRename\<close> stands for a call of \<^verbatim>\<open>os.rename\<close> that returned.
\<close>

definition new_pdf_path_of :: "env \<Rightarrow> worker \<Rightarrow> string \<Rightarrow> string" where
  "new_pdf_path_of E W pdf_path =
     os_path_join E (output_dir W) (replace (os_path_basename E pdf_path) ''%20'' '' '')"

definition finalize_filename :: "env \<Rightarrow> worker \<Rightarrow> string \<Rightarrow> state \<Rightarrow> state \<times> event list" where
  "finalize_filename E W pdf_path s =
     (let original_pdf_name = os_path_basename E pdf_path;
          new_pdf_name = replace original_pdf_name ''%20'' '' '';
          new_pdf_path = os_path_join E (output_dir W) new_pdf_name
      in if pdf_path \<noteq> new_pdf_path
         then
           (if os_path_exists E (disk s) pdf_path
            then
              (case os_rename E (disk s) pdf_path new_pdf_path of
                 Inr d \<Rightarrow>
                   (s\<lparr>disk := d\<rparr>,
                    [OsRename pdf_path new_pdf_path,
                     ProgressUpdate (msg_renamed original_pdf_name new_pdf_name)])
               | Inl e \<Rightarrow>
                   (s, [ProgressUpdate
                          (msg_rename_failed original_pdf_name
                             (strerror E e pdf_path new_pdf_path))]))
            else (s, [ProgressUpdate (msg_not_found original_pdf_name)]))
         else (s, []))"

fun finalize_paths :: "env \<Rightarrow> worker \<Rightarrow> string list \<Rightarrow> state \<Rightarrow> state \<times> event list" where
  "finalize_paths E W [] s = (s, [])"
| "finalize_paths E W (pdf_path # rest) s =
     (let (s1, evs) = finalize_filename E W pdf_path s;
          (s2, evs') = finalize_paths E W rest s1
      in (s2, evs @ evs'))"

definition finalize_filenames :: "env \<Rightarrow> worker \<Rightarrow> state \<Rightarrow> state \<times> event list" where
  "finalize_filenames E W s = finalize_paths E W (saved_pdf_paths s) s"

subsection \<open>The whole run\<close>

text \<open>
  \<^verbatim>\<open>convert_files\<close>, lines 34 to 91, from the state the constructor leaves. An exception
  that escapes the loop (the division of line 85) ends the run: nothing after the loop is
  executed.
\<close>

definition terminal_message :: "bool \<Rightarrow> string" where
  "terminal_message c = (if c then msg_cancelled else msg_all_processed)"

definition convert_files :: "env \<Rightarrow> worker \<Rightarrow> state \<Rightarrow> py_error + state \<times> event list" where
  "convert_files E W s =
     (case files_loop E W (length (files W)) (files W) s of
        Inl e \<Rightarrow> Inl e
      | Inr (s1, evs) \<Rightarrow>
          (let (s2, fin) = finalize_filenames E W s1;
               (c, s3) = is_cancelled E s2
           in Inr (s3,
                [CoInitialize, Dispatch ''Excel.Application'', SetVisible False]
                  @ evs @ [Quit, CoUninitialize] @ fin
                  @ [IsCancelled c, ConversionComplete (terminal_message c)])))"

section \<open>The window's handlers\<close>

text \<open>
  The three signals of the worker are connected to \<^verbatim>\<open>log\<close> (here \<open>log_message\<close>), \<^verbatim>\<open>update_progress\<close> and
  \<^verbatim>\<open>conversion_complete\<close> of \<^verbatim>\<open>ExcelToPDFConverterApp\<close> (lines 240 to 242); the handlers
  run in the order of emission. Of the window only what the handlers touch is kept: the
  button, the progress bar and the log pane. The bar has the range 0 to 100 of a
  \<^verbatim>\<open>QProgressBar\<close>, which ignores a value outside its range.
\<close>

record window =
  convert_btn_text :: string
  convert_btn_enabled :: bool
  progress_bar :: int
  log_text :: "string list"

definition setValue :: "int \<Rightarrow> window \<Rightarrow> window" where
  "setValue v w = (if 0 \<le> v \<and> v \<le> 100 then w\<lparr>progress_bar := v\<rparr> else w)"

definition log_message :: "string \<Rightarrow> window \<Rightarrow> window" where
  "log_message message w = w\<lparr>log_text := log_text w @ [message]\<rparr>"

definition update_progress :: "int \<Rightarrow> window \<Rightarrow> window" where
  "update_progress v w = setValue v w"

definition conversion_complete :: "string \<Rightarrow> window \<Rightarrow> window" where
  "conversion_complete message w =
     log_message message
       (setValue 100 (w\<lparr>convert_btn_enabled := True, convert_btn_text := ''Convert to PDF''\<rparr>))"

text \<open>The window when \<^verbatim>\<open>toggle_conversion\<close> has started a job (lines 236 and 237).\<close>

definition started :: "window \<Rightarrow> window" where
  "started w = setValue 0 (w\<lparr>convert_btn_text := ''Cancel''\<rparr>)"

fun deliver :: "window \<Rightarrow> event \<Rightarrow> window" where
  "deliver w (ProgressUpdate m) = log_message m w"
| "deliver w (Progress v) = update_progress v w"
| "deliver w (ConversionComplete m) = conversion_complete m w"
| "deliver w _ = w"

text \<open>The values of the progress bar after each signal of a run, and the emitted values.\<close>

fun bar_history :: "window \<Rightarrow> event list \<Rightarrow> int list" where
  "bar_history w [] = []"
| "bar_history w (e # es) = progress_bar (deliver w e) # bar_history (deliver w e) es"

fun progress_values :: "event list \<Rightarrow> int list" where
  "progress_values [] = []"
| "progress_values (Progress v # es) = v # progress_values es"
| "progress_values (_ # es) = progress_values es"

section \<open>A Windows environment for concrete runs\<close>

text \<open>
  The concrete runs below use the path conventions of Windows, where the automation
  interface lives. The three functions agree with \<^verbatim>\<open>ntpath\<close> on the paths used here: a
  drive letter or none, no UNC prefix, no \<^verbatim>\<open>.\<close> or \<^verbatim>\<open>..\<close> component, no doubled separator,
  and a plain name as the second argument of \<^verbatim>\<open>join\<close>. Two spellings of a path that
  differ only in the separator are one file.
\<close>

definition bslash :: char where
  "bslash = CHR 0x5C"

definition is_sep :: "char \<Rightarrow> bool" where
  "is_sep c = (c = bslash \<or> c = CHR ''/'')"

definition nt_splitdrive :: "string \<Rightarrow> string \<times> string" where
  "nt_splitdrive p =
     (if 2 \<le> length p \<and> p ! 1 = CHR '':'' then (take 2 p, drop 2 p) else ([], p))"

definition nt_basename :: "string \<Rightarrow> string" where
  "nt_basename p = rev (takeWhile (\<lambda>c. \<not> is_sep c) (rev (snd (nt_splitdrive p))))"

definition nt_join :: "string \<Rightarrow> string \<Rightarrow> string" where
  "nt_join a b =
     (let (drive, path) = nt_splitdrive a
      in drive @ path @ (if path \<noteq> [] \<and> \<not> is_sep (last path) then [bslash] else []) @ b)"

definition nt_normpath :: "string \<Rightarrow> string" where
  "nt_normpath p = map (\<lambda>c. if c = CHR ''/'' then bslash else c) p"

definition py_repr :: "string \<Rightarrow> string" where
  "py_repr p =
     [CHR 0x27] @ concat (map (\<lambda>c. if c = bslash then [bslash, bslash] else [c]) p) @ [CHR 0x27]"

definition win_strerror :: "os_error \<Rightarrow> string \<Rightarrow> string \<Rightarrow> string" where
  "win_strerror e src dst =
     (case e of
        FileExistsError \<Rightarrow>
          ''[WinError 183] Cannot create a file when that file already exists: ''
            @ py_repr src @ '' -> '' @ py_repr dst
      | FileNotFoundError \<Rightarrow>
          ''[WinError 2] The system cannot find the file specified: ''
            @ py_repr src @ '' -> '' @ py_repr dst
      | PermissionError \<Rightarrow>
          ''[WinError 32] The process cannot access the file because it is being used by ''
            @ ''another process: '' @ py_repr src @ '' -> '' @ py_repr dst)"

text \<open>
  The environment with a given arrival of the cancellation and a given behaviour of the
  spreadsheet application; \<^verbatim>\<open>os.chmod\<close> never raises in it and no rename is refused.
\<close>

definition windows :: "(nat \<Rightarrow> bool) \<Rightarrow> (nat \<Rightarrow> string \<Rightarrow> attempt_result) \<Rightarrow> env" where
  "windows cancel eng =
     \<lparr>cancel_requested = cancel, engine = eng, chmod_raises = (\<lambda>_. None),
      os_path_basename = nt_basename, os_path_join = nt_join,
      os_path_normpath = nt_normpath, file_of = nt_normpath,
      rename_denied = (\<lambda>_ _. False), strerror = win_strerror\<rparr>"

text \<open>A path below a drive: \<open>on_drive d [a, b]\<close> is \<^verbatim>\<open>d:\a\b\<close>.\<close>

definition on_drive :: "char \<Rightarrow> string list \<Rightarrow> string" where
  "on_drive d parts = d # CHR '':'' # concat (map (\<lambda>p. bslash # p) parts)"

text \<open>
  Jobs and behaviours for the concrete runs: the job of two files with one attempt each,
  a job of three files with the default retry limit, a request that never comes, and
  spreadsheet applications that convert every file, no file, or every file but
  \<^verbatim>\<open>Budget.xls\<close>.
\<close>

definition two_files :: worker where
  "two_files =
     \<lparr>files = [on_drive CHR ''C'' [''in'', ''%20Report.xlsx''],
               on_drive CHR ''C'' [''in'', ''Budget.xls'']],
      output_dir = on_drive CHR ''C'' [''out''],
      retries = 1\<rparr>"

definition three_files :: worker where
  "three_files =
     ConversionWorker
       [on_drive CHR ''C'' [''in'', ''a.xlsx''],
        on_drive CHR ''C'' [''in'', ''b.xlsx''],
        on_drive CHR ''C'' [''in'', ''c.xlsx'']]
       (on_drive CHR ''C'' [''out''])"

definition never :: "nat \<Rightarrow> bool" where
  "never n = False"

definition always_converts :: "nat \<Rightarrow> string \<Rightarrow> attempt_result" where
  "always_converts n file = Converted"

definition never_converts :: "nat \<Rightarrow> string \<Rightarrow> attempt_result" where
  "never_converts n file = OpenRaises ''Excel is busy''"

definition budget_fails :: "nat \<Rightarrow> string \<Rightarrow> attempt_result" where
  "budget_fails n file =
     (if nt_basename file = ''Budget.xls'' then ExportRaises ''Export failed'' else Converted)"

definition one_file :: worker where
  "one_file =
     ConversionWorker [on_drive CHR ''C'' [''in'', ''a.xlsx'']] (on_drive CHR ''C'' [''out''])"

definition blank_window :: window where
  "blank_window =
     \<lparr>convert_btn_text = ''Convert to PDF'', convert_btn_enabled = True,
      progress_bar = 0, log_text = []\<rparr>"

text \<open>
  A spreadsheet application whose first attempt of the run converts and whose later
  attempts all fail, and a cancellation that comes in before the read number \<open>k\<close>.
\<close>

definition only_first_converts :: "nat \<Rightarrow> string \<Rightarrow> attempt_result" where
  "only_first_converts n file = (if n = 0 then Converted else OpenRaises ''Excel is busy'')"

definition from_read :: "nat \<Rightarrow> nat \<Rightarrow> bool" where
  "from_read k n = (k \<le> n)"


text \<open>
  A job of two files whose names differ only in \<^verbatim>\<open>%20\<close> against a space, and a state
  after a run that recorded one path, with a given disk.
\<close>

definition colliding_names :: worker where
  "colliding_names =
     ConversionWorker
       [on_drive CHR ''C'' [''in'', ''a%20b.xlsx''],
        on_drive CHR ''C'' [''in'', ''a b.xlsx'']]
       (on_drive CHR ''C'' [''out''])"

definition recorded :: "string list \<Rightarrow> string set \<Rightarrow> state" where
  "recorded ps d = (init_state d)\<lparr>saved_pdf_paths := ps\<rparr>"

text \<open>Three recorded paths, the new name of the second being the name of the third.\<close>

definition three_recorded :: "string list" where
  "three_recorded =
     [on_drive CHR ''C'' [''out'', ''%20Report.pdf''],
      on_drive CHR ''C'' [''out'', ''a%20b.pdf''],
      on_drive CHR ''C'' [''out'', ''a b.pdf'']]"

text \<open>A Windows environment in which every rename is refused: another program holds the files.\<close>

definition files_in_use :: env where
  "files_in_use = (windows never always_converts)\<lparr>rename_denied := (\<lambda>src dst. True)\<rparr>"

text \<open>
  A job of one file whose output directory is spelled with a forward slash, as the
  directory dialog of the window returns it.
\<close>

definition slash_dir :: worker where
  "slash_dir = ConversionWorker [on_drive CHR ''C'' [''in'', ''a.xlsx'']] ''C:/out''"
section \<open>Kinds of events\<close>

text \<open>
  The events the loop over the files can produce, the events finalization can produce,
  and the event that starts a conversion attempt.
\<close>

fun loop_event :: "event \<Rightarrow> bool" where
  "loop_event (IsCancelled _) = True"
| "loop_event (Chmod _) = True"
| "loop_event (LoggingError _) = True"
| "loop_event (ProgressUpdate _) = True"
| "loop_event (Progress _) = True"
| "loop_event (WorkbooksOpen _) = True"
| "loop_event (ExportAsFixedFormat _) = True"
| "loop_event WorkbookClose = True"
| "loop_event (Sleep _) = True"
| "loop_event _ = False"

fun finalize_event :: "event \<Rightarrow> bool" where
  "finalize_event (OsRename _ _) = True"
| "finalize_event (ProgressUpdate _) = True"
| "finalize_event _ = False"

fun is_attempt :: "event \<Rightarrow> bool" where
  "is_attempt (WorkbooksOpen _) = True"
| "is_attempt _ = False"

text \<open>
  Between two states of a run the flag follows the requests: it is set in the later state
  exactly when it was set before or a request came in at one of the reads in between.
\<close>

definition flag_follows :: "env \<Rightarrow> state \<Rightarrow> state \<Rightarrow> bool" where
  "flag_follows E s s' =
     (reads s \<le> reads s'
      \<and> (cancelled s' \<longleftrightarrow>
           cancelled s \<or> (\<exists>i. reads s \<le> i \<and> i < reads s' \<and> cancel_requested E i)))"

text \<open>
  A trace in which no conversion attempt is started after a read of the flag that
  returned true.
\<close>

definition no_attempt_after_cancel :: "event list \<Rightarrow> bool" where
  "no_attempt_after_cancel evs =
     list_all (\<lambda>e. \<not> is_attempt e) (dropWhile (\<lambda>e. e \<noteq> IsCancelled True) evs)"

text \<open>
  A piece of a run, from state \<open>s\<close> to state \<open>s'\<close> with events \<open>evs\<close>, honours the flag:
  it starts no attempt when the flag is set at its start, none after a read that returned
  true, and such a read leaves the flag set at its end.
\<close>

definition honours_flag :: "state \<Rightarrow> state \<Rightarrow> event list \<Rightarrow> bool" where
  "honours_flag s s' evs =
     ((cancelled s \<longrightarrow> cancelled s' \<and> list_all (\<lambda>e. \<not> is_attempt e) evs)
      \<and> (IsCancelled True \<in> set evs \<longrightarrow> cancelled s')
      \<and> no_attempt_after_cancel evs)"

text \<open>
  \<^verbatim>\<open>s.split(old)\<close> for a non-empty \<open>old\<close>: the pieces of \<open>s\<close> between the occurrences of
  \<open>old\<close> that \<open>replace\<close> finds. It serves to state what \<open>replace\<close> keeps.
\<close>

fun split_from :: "string \<Rightarrow> string \<Rightarrow> string list" where
  "split_from [] old = [[]]"
| "split_from (c # cs) old =
     (if old \<noteq> [] \<and> prefix old (c # cs)
      then [] # split_from (drop (length old) (c # cs)) old
      else (case split_from cs old of
              [] \<Rightarrow> [[c]]
            | u # us \<Rightarrow> (c # u) # us))"


text \<open>
  A recorded path is settled on a disk when its step of the finalization has nothing to
  move there: no file is at the path, or the rename is refused, or the new path names the
  file itself, or another file has the new name.
\<close>

definition settled :: "env \<Rightarrow> worker \<Rightarrow> string set \<Rightarrow> string \<Rightarrow> bool" where
  "settled E W d p =
     (file_of E p \<notin> d
      \<or> rename_denied E p (new_pdf_path_of E W p)
      \<or> file_of E (new_pdf_path_of E W p) = file_of E p
      \<or> file_of E (new_pdf_path_of E W p) \<in> d)"

text \<open>
  The lines a run sends to the log pane through \<^verbatim>\<open>progress_update\<close>, in the order of
  emission, and among them the per-file failure lines of line 81, which are the lines
  that begin with \<^verbatim>\<open>Failed to convert\<close>.
\<close>

fun progress_updates :: "event list \<Rightarrow> string list" where
  "progress_updates [] = []"
| "progress_updates (ProgressUpdate m # es) = m # progress_updates es"
| "progress_updates (_ # es) = progress_updates es"

definition failure_lines :: "event list \<Rightarrow> string list" where
  "failure_lines evs = filter (prefix ''Failed to convert '') (progress_updates evs)"
section \<open>Properties of the rounding and of the percentage\<close>

lemma halvings_bounds: "1 \<le> q \<Longrightarrow> 2 ^ halvings q \<le> q \<and> q < 2 ^ Suc (halvings q)"
proof (induction q rule: halvings.induct)
  case (1 q)
  show ?case
  proof (cases "q < 2")
    case True
    then show ?thesis using "1.prems" by (simp add: halvings.simps [of q])
  next
    case False
    then have "1 \<le> q / 2" by simp
    with "1.IH" False have "2 ^ halvings (q / 2) \<le> q / 2 \<and> q / 2 < 2 ^ Suc (halvings (q / 2))"
      by blast
    then show ?thesis using False by (simp add: halvings.simps [of q])
  qed
qed

lemma doublings_bounds:
  "0 < q \<Longrightarrow> q < 1 \<Longrightarrow> 1 \<le> q * 2 ^ doublings q \<and> q * 2 ^ doublings q < 2"
proof (induction q rule: doublings.induct)
  case (1 q)
  show ?case
  proof (cases "1 \<le> 2 * q")
    case True
    then have "doublings (2 * q) = 0" by (simp add: doublings.simps [of "2 * q"])
    then show ?thesis using "1.prems" True by (simp add: doublings.simps [of q])
  next
    case False
    then have "2 * q < 1" "0 < 2 * q" using "1.prems" by auto
    with "1.IH" "1.prems"
    have "1 \<le> 2 * q * 2 ^ doublings (2 * q) \<and> 2 * q * 2 ^ doublings (2 * q) < 2"
      by auto
    then show ?thesis using "1.prems" by (simp add: doublings.simps [of q] mult_ac)
  qed
qed

lemma floor_log2_bounds:
  assumes "0 < q"
  shows "2 powi floor_log2 q \<le> q \<and> q < 2 powi (floor_log2 q + 1)"
proof (cases "1 \<le> q")
  case True
  then show ?thesis
    using halvings_bounds [of q]
    by (simp add: floor_log2_def power_int_add power_int_def nat_add_distrib)
next
  case False
  then have q1: "q < 1" by simp
  let ?d = "doublings q"
  have b: "1 \<le> q * 2 ^ ?d \<and> q * 2 ^ ?d < 2"
    using doublings_bounds [OF assms q1] .
  have dpos: "0 < ?d" using assms q1 by (simp add: doublings.simps [of q])
  have e: "floor_log2 q = - int ?d" using False by (simp add: floor_log2_def)
  have p1: "(2::rat) powi (- int ?d) = 1 / 2 ^ ?d"
    by (simp add: power_int_minus_divide)
  have p2: "(2::rat) powi (- int ?d + 1) = 2 / 2 ^ ?d"
  proof -
    obtain d' where d': "?d = Suc d'" using dpos by (cases ?d) auto
    have "- int ?d + 1 = - int d'" using d' by simp
    then have "(2::rat) powi (- int ?d + 1) = 1 / 2 ^ d'"
      by (simp add: power_int_minus_divide)
    also have "\<dots> = 2 / 2 ^ ?d" using d' by simp
    finally show ?thesis .
  qed
  show ?thesis unfolding e p1 p2 using b by (simp add: field_simps)
qed


lemma floor_log2_unique:
  assumes "0 < q" "2 powi e \<le> q" "q < 2 powi (e + 1)"
  shows "floor_log2 q = e"
proof -
  let ?f = "floor_log2 q"
  have b: "2 powi ?f \<le> q" "q < 2 powi (?f + 1)"
    using floor_log2_bounds [OF assms(1)] by auto
  have "(2::rat) powi e < 2 powi (?f + 1)" using assms(2) b(2) by simp
  then have "e < ?f + 1"
    by (metis linorder_not_less one_le_numeral power_int_increasing)
  moreover have "(2::rat) powi ?f < 2 powi (e + 1)" using assms(3) b(1) by simp
  then have "?f < e + 1"
    by (metis linorder_not_less one_le_numeral power_int_increasing)
  ultimately show ?thesis by simp
qed

lemma floor_log2_mono:
  assumes "0 < x" "x \<le> y"
  shows "floor_log2 x \<le> floor_log2 y"
proof -
  have "0 < y" using assms by simp
  have "(2::rat) powi floor_log2 x \<le> x" using floor_log2_bounds [OF assms(1)] by simp
  also have "\<dots> \<le> y" by fact
  also have "\<dots> < 2 powi (floor_log2 y + 1)" using floor_log2_bounds [OF \<open>0 < y\<close>] by simp
  finally have "floor_log2 x < floor_log2 y + 1"
    by (metis linorder_not_less one_le_numeral power_int_increasing)
  then show ?thesis by simp
qed

lemma round_half_even_bounds: "\<lfloor>x\<rfloor> \<le> round_half_even x \<and> round_half_even x \<le> \<lfloor>x\<rfloor> + 1"
  by (simp add: round_half_even_def Let_def)

lemma round_half_even_of_int [simp]: "round_half_even (of_int n) = n"
  by (simp add: round_half_even_def)

lemma round_half_even_mono:
  assumes "x \<le> y"
  shows "round_half_even x \<le> round_half_even y"
proof (cases "\<lfloor>x\<rfloor> = \<lfloor>y\<rfloor>")
  case True
  then have "x - of_int \<lfloor>x\<rfloor> \<le> y - of_int \<lfloor>y\<rfloor>" using assms by simp
  then show ?thesis using True
    by (auto simp: round_half_even_def Let_def)
next
  case False
  then have "\<lfloor>x\<rfloor> < \<lfloor>y\<rfloor>" using assms floor_mono [of x y] by linarith
  then show ?thesis
    using round_half_even_bounds [of x] round_half_even_bounds [of y] by linarith
qed

lemma round_half_even_down:
  assumes "of_int n \<le> x" "x < of_int n + 1 / 2"
  shows "round_half_even x = n"
proof -
  have "\<lfloor>x\<rfloor> = n" using assms by linarith
  then show ?thesis using assms by (simp add: round_half_even_def Let_def)
qed

lemma float_round_pos:
  "0 < q \<Longrightarrow> float_round q
     = of_int (round_half_even (q / 2 powi (floor_log2 q - 52))) * 2 powi (floor_log2 q - 52)"
  by (simp add: float_round_def Let_def)

lemma float_round_in_binade:
  assumes "0 < q"
  shows "2 powi floor_log2 q \<le> float_round q \<and> float_round q \<le> 2 powi (floor_log2 q + 1)"
proof -
  let ?e = "floor_log2 q"
  let ?u = "(2::rat) powi (?e - 52)"
  have upos: "0 < ?u" by simp
  have lo: "2 powi ?e = 2 ^ 52 * ?u" and hi: "2 powi (?e + 1) = 2 ^ 53 * ?u"
    by (simp_all add: power_int_diff power_int_add)
  have b: "2 powi ?e \<le> q" "q < 2 powi (?e + 1)"
    using floor_log2_bounds [OF assms] by auto
  define a :: int where "a = 2 ^ 52"
  define c :: int where "c = 2 ^ 53"
  have a: "(of_int a :: rat) = 2 ^ 52" and c: "(of_int c :: rat) = 2 ^ 53"
    by (simp_all add: a_def c_def)
  have "of_int a \<le> q / ?u" using b(1) upos unfolding lo a
    by (simp add: pos_le_divide_eq)
  then have "round_half_even (of_int a) \<le> round_half_even (q / ?u)"
    by (rule round_half_even_mono)
  then have 1: "a \<le> round_half_even (q / ?u)"
    by (simp only: round_half_even_of_int)
  have "q / ?u \<le> of_int c" using b(2) upos unfolding hi c
    by (simp add: pos_divide_le_eq)
  then have "round_half_even (q / ?u) \<le> round_half_even (of_int c)"
    by (rule round_half_even_mono)
  then have 2: "round_half_even (q / ?u) \<le> c"
    by (simp only: round_half_even_of_int)
  have "(of_int a :: rat) \<le> of_int (round_half_even (q / ?u))"
    using 1 by (simp only: of_int_le_iff)
  then have "2 ^ 52 * ?u \<le> of_int (round_half_even (q / ?u)) * ?u"
    unfolding a using upos by (simp only: mult_le_cancel_right_pos)
  moreover have "(of_int (round_half_even (q / ?u)) :: rat) \<le> of_int c"
    using 2 by (simp only: of_int_le_iff)
  then have "of_int (round_half_even (q / ?u)) * ?u \<le> 2 ^ 53 * ?u"
    unfolding c using upos by (simp only: mult_le_cancel_right_pos)
  ultimately show ?thesis
    unfolding float_round_pos [OF assms] lo hi by simp
qed

lemma float_round_mono_pos:
  assumes "0 < x" "x \<le> y"
  shows "float_round x \<le> float_round y"
proof -
  have ypos: "0 < y" using assms by simp
  have le: "floor_log2 x \<le> floor_log2 y" using assms by (rule floor_log2_mono)
  show ?thesis
  proof (cases "floor_log2 x = floor_log2 y")
    case True
    let ?u = "(2::rat) powi (floor_log2 y - 52)"
    have upos: "0 < ?u" by simp
    have "x / ?u \<le> y / ?u" using assms upos by (simp add: divide_right_mono)
    then have "round_half_even (x / ?u) \<le> round_half_even (y / ?u)"
      by (rule round_half_even_mono)
    then have "(of_int (round_half_even (x / ?u)) :: rat) * ?u \<le> of_int (round_half_even (y / ?u)) * ?u"
      using upos by simp
    then show ?thesis
      unfolding float_round_pos [OF assms(1)] float_round_pos [OF ypos] True .
  next
    case False
    then have "floor_log2 x + 1 \<le> floor_log2 y" using le by simp
    then have "(2::rat) powi (floor_log2 x + 1) \<le> 2 powi floor_log2 y"
      by (simp add: power_int_increasing)
    then show ?thesis
      using float_round_in_binade [OF assms(1)] float_round_in_binade [OF ypos] by linarith
  qed
qed

lemma float_round_nonneg: "0 \<le> q \<Longrightarrow> 0 \<le> float_round q"
proof (cases "q = 0")
  case True then show ?thesis by (simp add: float_round_def)
next
  case False
  assume "0 \<le> q"
  with False have "0 < q" by simp
  have "(0::rat) \<le> 2 powi floor_log2 q" by simp
  then show ?thesis using float_round_in_binade [OF \<open>0 < q\<close>] by linarith
qed

lemma float_round_mono:
  assumes "0 \<le> x" "x \<le> y"
  shows "float_round x \<le> float_round y"
proof (cases "x = 0")
  case True
  then show ?thesis using assms float_round_nonneg [of y] by (simp add: float_round_def)
next
  case False
  then show ?thesis using assms float_round_mono_pos by simp
qed

lemma float_round_exact:
  assumes "0 < q" "2 powi e \<le> q" "q < 2 powi (e + 1)" "q / 2 powi (e - 52) = of_int m"
  shows "float_round q = q"
proof -
  have e: "floor_log2 q = e" using assms(1-3) by (rule floor_log2_unique)
  have "float_round q = of_int m * 2 powi (e - 52)"
    unfolding float_round_pos [OF assms(1)] e assms(4) by simp
  also have "\<dots> = q" using assms(4) [symmetric] by simp
  finally show ?thesis .
qed


lemma float_round_1: "float_round 1 = 1"
  by (rule float_round_exact [where e = 0 and m = "2 ^ 52"]) simp_all

lemma float_round_100: "float_round 100 = 100"
  by (rule float_round_exact [where e = 6 and m = "100 * 2 ^ 46"]) simp_all

lemma float_round_below_1: "float_round (1 - 1 / 2 ^ 53) = 1 - 1 / 2 ^ 53"
  by (rule float_round_exact [where e = "-1" and m = "2 ^ 53 - 1"]) simp_all

lemma float_round_below_100: "float_round ((1 - 1 / 2 ^ 53) * 100) = 100 - 1 / 2 ^ 46"
proof -
  let ?q = "(1 - 1 / 2 ^ 53) * 100 :: rat"
  have e: "floor_log2 ?q = 6"
    by (rule floor_log2_unique) simp_all
  have r: "round_half_even (?q / 2 powi (6 - 52)) = 100 * 2 ^ 46 - 1"
    by (rule round_half_even_down) simp_all
  have "0 < ?q" by simp
  then show ?thesis
    unfolding float_round_pos [OF \<open>0 < ?q\<close>] e r by simp
qed


lemma progress_percent_eq:
  "0 < n \<Longrightarrow> progress_percent k n
     = Inr (\<lfloor>float_round (float_round (of_nat k / of_nat n) * 100)\<rfloor>)"
  by (simp add: progress_percent_def py_truediv_def float_mul_def int_of_float_def
      float_round_nonneg)

lemma progress_percent_zero_total: "progress_percent k 0 = Inl ZeroDivisionError"
  by (simp add: progress_percent_def py_truediv_def)

lemma progress_percent_mono:
  assumes "0 < n" "k \<le> k'" "progress_percent k n = Inr v" "progress_percent k' n = Inr v'"
  shows "v \<le> v'"
proof -
  have "(of_nat k :: rat) / of_nat n \<le> of_nat k' / of_nat n"
    using assms(1,2) by (simp add: divide_right_mono)
  then have "float_round (of_nat k / of_nat n) \<le> float_round (of_nat k' / of_nat n)"
    by (intro float_round_mono) simp_all
  then have "float_round (float_round (of_nat k / of_nat n) * 100)
      \<le> float_round (float_round (of_nat k' / of_nat n) * 100)"
    by (intro float_round_mono) (simp_all add: float_round_nonneg)
  then have "\<lfloor>float_round (float_round (of_nat k / of_nat n) * 100)\<rfloor>
      \<le> \<lfloor>float_round (float_round (of_nat k' / of_nat n) * 100)\<rfloor>"
    by (rule floor_mono)
  moreover have "v = \<lfloor>float_round (float_round (of_nat k / of_nat n) * 100)\<rfloor>"
    using assms(3) unfolding progress_percent_eq [OF assms(1)] by simp
  moreover have "v' = \<lfloor>float_round (float_round (of_nat k' / of_nat n) * 100)\<rfloor>"
    using assms(4) unfolding progress_percent_eq [OF assms(1)] by simp
  ultimately show ?thesis by simp
qed

lemma progress_percent_all: "0 < n \<Longrightarrow> progress_percent n n = Inr 100"
  by (simp add: progress_percent_eq float_round_1 float_round_100)

lemma progress_percent_nonneg:
  assumes "0 < n" "progress_percent k n = Inr v"
  shows "0 \<le> v"
  using assms unfolding progress_percent_eq [OF assms(1)]
  by (auto simp: float_round_nonneg)

lemma progress_percent_below:
  assumes "0 < n" "n \<le> 2 ^ 53" "k < n" "progress_percent k n = Inr v"
  shows "v < 100"
proof -
  have n: "(of_nat n :: rat) \<le> 2 ^ 53"
    using assms(2) by (metis of_nat_le_iff of_nat_numeral of_nat_power)
  have "(of_nat k :: rat) \<le> of_nat n - 1" using assms(3)
    by (metis Suc_leI of_nat_Suc of_nat_le_iff add.commute le_diff_eq)
  then have "(of_nat k :: rat) / of_nat n \<le> (of_nat n - 1) / of_nat n"
    using assms(1) by (simp add: divide_right_mono)
  also have "\<dots> = 1 - 1 / of_nat n" using assms(1) by (simp add: field_simps)
  also have "\<dots> \<le> 1 - 1 / 2 ^ 53"
    using n assms(1) by (simp add: frac_le)
  finally have "float_round (of_nat k / of_nat n) \<le> float_round (1 - 1 / 2 ^ 53)"
    by (intro float_round_mono) simp_all
  then have "float_round (of_nat k / of_nat n) * 100 \<le> (1 - 1 / 2 ^ 53) * 100"
    unfolding float_round_below_1 by simp
  then have "float_round (float_round (of_nat k / of_nat n) * 100)
      \<le> float_round ((1 - 1 / 2 ^ 53) * 100)"
    by (intro float_round_mono) (simp_all add: float_round_nonneg)
  then have "float_round (float_round (of_nat k / of_nat n) * 100) < 100"
    unfolding float_round_below_100 by simp
  then have "\<lfloor>float_round (float_round (of_nat k / of_nat n) * 100)\<rfloor> < 100"
    by (simp add: floor_less_iff)
  moreover have "v = \<lfloor>float_round (float_round (of_nat k / of_nat n) * 100)\<rfloor>"
    using assms(4) unfolding progress_percent_eq [OF assms(1)] by simp
  ultimately show ?thesis by simp
qed

section \<open>Lemmas about the parts of a run\<close>

lemma progress_values_append [simp]:
  "progress_values (xs @ ys) = progress_values xs @ progress_values ys"
  by (induction xs rule: progress_values.induct) auto

lemma is_cancelled_eq:
  "is_cancelled E s =
     (cancelled s \<or> cancel_requested E (reads s),
      s\<lparr>cancelled := cancelled s \<or> cancel_requested E (reads s), reads := reads s + 1\<rparr>)"
  by (simp add: is_cancelled_def cancel_conversion_def Let_def)

lemma is_cancelled_fields:
  assumes "is_cancelled E s = (c, s1)"
  shows "cancelled s1 = c" "c = (cancelled s \<or> cancel_requested E (reads s))"
    "reads s1 = reads s + 1" "saved_pdf_paths s1 = saved_pdf_paths s"
    "processed_files s1 = processed_files s" "disk s1 = disk s" "attempts s1 = attempts s"
  using assms by (auto simp: is_cancelled_eq)

lemma try_convert_events:
  "try_convert E W file file_name pdf_path attempt s = (ok, s', evs) \<Longrightarrow> list_all loop_event evs"
  by (auto simp: try_convert_def Let_def attempt_failed_def split: attempt_result.splits)

lemma try_convert_fields:
  assumes "try_convert E W file file_name pdf_path attempt s = (ok, s', evs)"
  shows "cancelled s' = cancelled s" "reads s' = reads s"
    "processed_files s' = processed_files s" "attempts s' = attempts s + 1"
    "progress_values evs = []"
  using assms
  by (auto simp: try_convert_def Let_def attempt_failed_def split: attempt_result.splits)

lemma retry_loop_events:
  "retry_loop E W file file_name pdf_path as s = (ok, s', evs) \<Longrightarrow> list_all loop_event evs"
proof (induction as arbitrary: s ok s' evs)
  case Nil
  then show ?case by simp
next
  case (Cons a as)
  then show ?case
    by (auto simp: Let_def split: prod.splits if_splits dest: try_convert_events)
qed

lemma retry_loop_fields:
  assumes "retry_loop E W file file_name pdf_path as s = (ok, s', evs)"
  shows "processed_files s' = processed_files s \<and> progress_values evs = []
         \<and> (cancelled s \<longrightarrow> cancelled s') \<and> reads s \<le> reads s'"
  using assms
proof (induction as arbitrary: s ok s' evs)
  case Nil
  then show ?case by simp
next
  case (Cons a as)
  obtain c s1 where c: "is_cancelled E s = (c, s1)" by (cases "is_cancelled E s")
  note f1 = is_cancelled_fields [OF c]
  show ?case
  proof (cases c)
    case True
    then show ?thesis using Cons.prems c f1 by auto
  next
    case False
    obtain ok2 s2 evs2 where t: "try_convert E W file file_name pdf_path a s1 = (ok2, s2, evs2)"
      by (cases "try_convert E W file file_name pdf_path a s1") auto
    note f2 = try_convert_fields [OF t]
    show ?thesis
    proof (cases ok2)
      case True
      then show ?thesis using Cons.prems c t False f1 f2 by auto
    next
      case ok2: False
      obtain ok3 s3 evs3 where r: "retry_loop E W file file_name pdf_path as s2 = (ok3, s3, evs3)"
        by (cases "retry_loop E W file file_name pdf_path as s2") auto
      have e: "evs = IsCancelled False # evs2 @ evs3" "s' = s3"
        using Cons.prems c t r False ok2 by auto
      show ?thesis using e f1 f2 Cons.IH [OF r] False by auto
    qed
  qed
qed


lemma report_failure_events:
  "report_failure E W file_name ok s = (s', evs) \<Longrightarrow> list_all loop_event evs"
  by (auto simp: report_failure_def is_cancelled_eq split: if_splits)

lemma report_failure_fields:
  assumes "report_failure E W file_name ok s = (s', evs)"
  shows "processed_files s' = processed_files s \<and> progress_values evs = []
         \<and> (cancelled s \<longrightarrow> cancelled s') \<and> reads s \<le> reads s'
         \<and> saved_pdf_paths s' = saved_pdf_paths s \<and> attempts s' = attempts s \<and> disk s' = disk s"
  using assms by (auto simp: report_failure_def is_cancelled_eq split: if_splits)

lemma count_processed_total:
  assumes "0 < n"
  shows "\<exists>s' evs. count_processed E n s = Inr (s', evs)"
  using assms
  by (auto simp: count_processed_def is_cancelled_eq Let_def progress_percent_eq)

lemma count_processed_cases:
  assumes "count_processed E n s = Inr (s', evs)"
  shows "(cancelled s' \<and> processed_files s' = processed_files s \<and> evs = [IsCancelled True])
       \<or> (\<not> cancelled s' \<and> \<not> cancelled s \<and> processed_files s' = processed_files s + 1
          \<and> (\<exists>v. progress_percent (processed_files s + 1) n = Inr v
                \<and> evs = [IsCancelled False, Progress v]))"
  using assms
  by (auto simp: count_processed_def is_cancelled_eq Let_def split: if_splits sum.splits)

lemma count_processed_fields:
  assumes "count_processed E n s = Inr (s', evs)"
  shows "(cancelled s \<longrightarrow> cancelled s') \<and> reads s' = reads s + 1
         \<and> saved_pdf_paths s' = saved_pdf_paths s \<and> attempts s' = attempts s \<and> disk s' = disk s
         \<and> list_all loop_event evs"
  using assms
  by (auto simp: count_processed_def is_cancelled_eq Let_def split: if_splits sum.splits)

lemma reset_permissions_events:
  "list_all loop_event (reset_permissions E file) \<and> progress_values (reset_permissions E file) = []"
  by (auto simp: reset_permissions_def split: option.splits)

lemma convert_file_total:
  assumes "0 < n"
  shows "\<exists>s' evs. convert_file E W n file s = Inr (s', evs)"
proof -
  obtain ok s1 evs1 where r: "retry_loop E W file (os_path_basename E file) (pdf_path_of E W file)
      [1..retries W] s = (ok, s1, evs1)"
    by (metis prod_cases3)
  obtain s2 evs2 where f: "report_failure E W (os_path_basename E file) ok s1 = (s2, evs2)"
    by (metis surj_pair)
  obtain s3 evs3 where c: "count_processed E n s2 = Inr (s3, evs3)"
    using count_processed_total [OF assms] by blast
  show ?thesis
    by (simp add: convert_file_def Let_def r f c)
qed

lemma convert_file_parts:
  assumes "convert_file E W n file s = Inr (s', evs)"
  obtains ok s1 evs1 s2 evs2 evs3 where
    "retry_loop E W file (os_path_basename E file) (pdf_path_of E W file) [1..retries W] s
       = (ok, s1, evs1)"
    "report_failure E W (os_path_basename E file) ok s1 = (s2, evs2)"
    "count_processed E n s2 = Inr (s', evs3)"
    "evs = reset_permissions E file @ evs1 @ evs2 @ evs3"
  using assms
  by (auto simp: convert_file_def Let_def split: prod.splits sum.splits)

lemma convert_file_events:
  assumes "convert_file E W n file s = Inr (s', evs)"
  shows "list_all loop_event evs"
  using assms
  by (elim convert_file_parts)
     (auto simp: reset_permissions_events dest: retry_loop_events report_failure_events
        count_processed_fields)

lemma files_loop_total:
  assumes "0 < n"
  shows "\<exists>s' evs. files_loop E W n fs s = Inr (s', evs)"
proof (induction fs arbitrary: s)
  case Nil
  then show ?case by simp
next
  case (Cons f fs)
  show ?case
  proof (cases "fst (is_cancelled E s)")
    case True
    then show ?thesis by (simp add: split_beta)
  next
    case False
    obtain s2 evs where c: "convert_file E W n f (snd (is_cancelled E s)) = Inr (s2, evs)"
      using convert_file_total [OF assms] by blast
    obtain s3 evs' where l: "files_loop E W n fs s2 = Inr (s3, evs')"
      using Cons.IH by blast
    show ?thesis using False c l by (simp add: split_beta)
  qed
qed

lemma files_loop_events:
  "files_loop E W n fs s = Inr (s', evs) \<Longrightarrow> list_all loop_event evs"
proof (induction fs arbitrary: s s' evs)
  case Nil
  then show ?case by simp
next
  case (Cons f fs)
  then show ?case
    by (auto simp: split_beta split: if_splits sum.splits dest: convert_file_events)
qed

lemma finalize_filename_events:
  "finalize_filename E W p s = (s', evs) \<Longrightarrow> list_all finalize_event evs"
  by (auto simp: finalize_filename_def Let_def split: if_splits sum.splits)

lemma finalize_filename_fields:
  assumes "finalize_filename E W p s = (s', evs)"
  shows "cancelled s' = cancelled s \<and> reads s' = reads s
         \<and> saved_pdf_paths s' = saved_pdf_paths s \<and> attempts s' = attempts s
         \<and> processed_files s' = processed_files s"
  using assms by (auto simp: finalize_filename_def Let_def split: if_splits sum.splits)

lemma finalize_paths_events:
  "finalize_paths E W ps s = (s', evs) \<Longrightarrow> list_all finalize_event evs"
proof (induction ps arbitrary: s s' evs)
  case Nil
  then show ?case by simp
next
  case (Cons p ps)
  obtain s1 evs1 where f: "finalize_filename E W p s = (s1, evs1)" by (metis surj_pair)
  obtain s2 evs2 where g: "finalize_paths E W ps s1 = (s2, evs2)" by (metis surj_pair)
  show ?case
    using Cons.prems f g finalize_filename_events [OF f] Cons.IH [OF g] by auto
qed

lemma finalize_paths_fields:
  assumes "finalize_paths E W ps s = (s', evs)"
  shows "cancelled s' = cancelled s \<and> reads s' = reads s
         \<and> saved_pdf_paths s' = saved_pdf_paths s \<and> attempts s' = attempts s
         \<and> processed_files s' = processed_files s"
  using assms
proof (induction ps arbitrary: s s' evs)
  case Nil
  then show ?case by simp
next
  case (Cons p ps)
  obtain s1 evs1 where f: "finalize_filename E W p s = (s1, evs1)" by (metis surj_pair)
  obtain s2 evs2 where g: "finalize_paths E W ps s1 = (s2, evs2)" by (metis surj_pair)
  show ?case
    using Cons.prems f g finalize_filename_fields [OF f] Cons.IH [OF g] by auto
qed

lemma files_loop_returns:
  "\<exists>s' evs. files_loop E W (length fs) fs s = Inr (s', evs)"
proof (cases fs)
  case Nil
  then show ?thesis by simp
next
  case (Cons f rest)
  then have "0 < length fs" by simp
  then show ?thesis by (rule files_loop_total)
qed

lemma convert_files_parts:
  obtains s1 body s2 fin c s3 where
    "files_loop E W (length (files W)) (files W) s = Inr (s1, body)"
    "finalize_filenames E W s1 = (s2, fin)"
    "is_cancelled E s2 = (c, s3)"
    "convert_files E W s =
       Inr (s3, [CoInitialize, Dispatch ''Excel.Application'', SetVisible False]
                 @ body @ [Quit, CoUninitialize] @ fin
                 @ [IsCancelled c, ConversionComplete (terminal_message c)])"
proof -
  obtain s1 body where l: "files_loop E W (length (files W)) (files W) s = Inr (s1, body)"
    using files_loop_returns by blast
  obtain s2 fin where f: "finalize_filenames E W s1 = (s2, fin)" by (metis surj_pair)
  obtain c s3 where c: "is_cancelled E s2 = (c, s3)" by (metis surj_pair)
  have "convert_files E W s =
       Inr (s3, [CoInitialize, Dispatch ''Excel.Application'', SetVisible False]
                 @ body @ [Quit, CoUninitialize] @ fin
                 @ [IsCancelled c, ConversionComplete (terminal_message c)])"
    by (simp add: convert_files_def l f c)
  then show ?thesis using that l f c by blast
qed

lemma count_list_excluded:
  "list_all P evs \<Longrightarrow> \<not> P x \<Longrightarrow> count_list evs x = 0"
  by (induction evs) auto

lemma loop_event_count:
  assumes "list_all loop_event evs"
  shows "count_list evs Quit = 0" "count_list evs (Dispatch a) = 0"
    "count_list evs CoInitialize = 0" "count_list evs CoUninitialize = 0"
    "count_list evs (ConversionComplete m) = 0" "count_list evs (OsRename x y) = 0"
  by (rule count_list_excluded [OF assms], simp)+

lemma finalize_event_count:
  assumes "list_all finalize_event evs"
  shows "count_list evs Quit = 0" "count_list evs (Dispatch a) = 0"
    "count_list evs CoInitialize = 0" "count_list evs CoUninitialize = 0"
    "count_list evs (ConversionComplete m) = 0"
    "count_list evs (IsCancelled b) = 0" "count_list evs (Progress v) = 0"
    "count_list evs (WorkbooksOpen f) = 0"
  by (rule count_list_excluded [OF assms], simp)+

lemma flag_follows_refl: "flag_follows E s s"
  by (auto simp: flag_follows_def)

lemma flag_follows_trans:
  assumes "flag_follows E s s1" "flag_follows E s1 s2"
  shows "flag_follows E s s2"
proof -
  have r: "reads s \<le> reads s1" "reads s1 \<le> reads s2"
    using assms by (simp_all add: flag_follows_def)
  let ?A = "\<exists>i. reads s \<le> i \<and> i < reads s2 \<and> cancel_requested E i"
  let ?B = "\<exists>i. reads s \<le> i \<and> i < reads s1 \<and> cancel_requested E i"
  let ?C = "\<exists>i. reads s1 \<le> i \<and> i < reads s2 \<and> cancel_requested E i"
  have split: "?A \<longleftrightarrow> ?B \<or> ?C"
  proof
    assume ?A
    then obtain i where i: "reads s \<le> i" "i < reads s2" "cancel_requested E i" by blast
    show "?B \<or> ?C"
    proof (cases "i < reads s1")
      case True
      then have ?B using i by blast
      then show ?thesis ..
    next
      case False
      then have "reads s1 \<le> i" by simp
      then have ?C using i by blast
      then show ?thesis ..
    qed
  next
    assume "?B \<or> ?C"
    then show ?A
    proof
      assume ?B
      then obtain i where i: "reads s \<le> i" "i < reads s1" "cancel_requested E i" by blast
      have "i < reads s2" using i(2) r(2) by simp
      then show ?A using i by blast
    next
      assume ?C
      then obtain i where i: "reads s1 \<le> i" "i < reads s2" "cancel_requested E i" by blast
      have "reads s \<le> i" using i(1) r(1) by simp
      then show ?A using i by blast
    qed
  qed
  have 1: "cancelled s1 \<longleftrightarrow> cancelled s \<or> ?B"
    using assms(1) by (simp add: flag_follows_def)
  have 2: "cancelled s2 \<longleftrightarrow> cancelled s1 \<or> ?C"
    using assms(2) by (simp add: flag_follows_def)
  have "cancelled s2 \<longleftrightarrow> cancelled s \<or> ?A"
    unfolding split 1 2 by blast
  moreover have "reads s \<le> reads s2" using r by simp
  ultimately show ?thesis unfolding flag_follows_def by blast
qed

lemma flag_follows_same:
  "reads s' = reads s \<Longrightarrow> cancelled s' = cancelled s \<Longrightarrow> flag_follows E s s'"
  by (auto simp: flag_follows_def)

lemma is_cancelled_follows:
  "is_cancelled E s = (c, s1) \<Longrightarrow> flag_follows E s s1"
  by (auto simp: is_cancelled_eq flag_follows_def less_Suc_eq_le)

lemma try_convert_follows:
  "try_convert E W file fn pp a s = (ok, s', evs) \<Longrightarrow> flag_follows E s s'"
  by (rule flag_follows_same) (auto dest: try_convert_fields)

lemma retry_loop_follows:
  "retry_loop E W file fn pp as s = (ok, s', evs) \<Longrightarrow> flag_follows E s s'"
proof (induction as arbitrary: s ok s' evs)
  case Nil
  then show ?case by (simp add: flag_follows_refl)
next
  case (Cons a as)
  obtain c s1 where c: "is_cancelled E s = (c, s1)" by (metis surj_pair)
  obtain ok2 s2 evs2 where t: "try_convert E W file fn pp a s1 = (ok2, s2, evs2)"
    by (metis prod_cases3)
  obtain ok3 s3 evs3 where r: "retry_loop E W file fn pp as s2 = (ok3, s3, evs3)"
    by (metis prod_cases3)
  have 1: "flag_follows E s s1" using c by (rule is_cancelled_follows)
  have 2: "flag_follows E s1 s2" using t by (rule try_convert_follows)
  have 3: "flag_follows E s2 s3" using r by (rule Cons.IH)
  have "s' = s1 \<or> s' = s2 \<or> s' = s3"
    using Cons.prems c t r by (auto split: if_splits)
  then show ?case
    using 1 2 3 flag_follows_trans by blast
qed

lemma report_failure_follows:
  "report_failure E W fn ok s = (s', evs) \<Longrightarrow> flag_follows E s s'"
  by (auto simp: report_failure_def flag_follows_refl split: if_splits prod.splits
      dest: is_cancelled_follows)

lemma count_processed_follows:
  "count_processed E n s = Inr (s', evs) \<Longrightarrow> flag_follows E s s'"
  by (auto simp: count_processed_def is_cancelled_eq flag_follows_def less_Suc_eq_le Let_def
      split: if_splits sum.splits)

lemma convert_file_follows:
  assumes "convert_file E W n file s = Inr (s', evs)"
  shows "flag_follows E s s'"
  using assms
  by (elim convert_file_parts)
     (blast intro: flag_follows_trans retry_loop_follows report_failure_follows
        count_processed_follows)

lemma files_loop_follows:
  "files_loop E W n fs s = Inr (s', evs) \<Longrightarrow> flag_follows E s s'"
proof (induction fs arbitrary: s s' evs)
  case Nil
  then show ?case by (simp add: flag_follows_refl)
next
  case (Cons f fs)
  obtain c s1 where c: "is_cancelled E s = (c, s1)" by (metis surj_pair)
  have 1: "flag_follows E s s1" using c by (rule is_cancelled_follows)
  show ?case
  proof (cases c)
    case True
    then show ?thesis using Cons.prems c 1 by simp
  next
    case False
    obtain s2 evs2 where cf: "convert_file E W n f s1 = Inr (s2, evs2)"
      using Cons.prems c False by (auto split: sum.splits)
    obtain evs3 where l: "files_loop E W n fs s2 = Inr (s', evs3)"
      using Cons.prems c False cf by (auto split: sum.splits)
    show ?thesis
      using 1 convert_file_follows [OF cf] Cons.IH [OF l] flag_follows_trans by blast
  qed
qed

lemma finalize_filenames_follows:
  "finalize_filenames E W s = (s', evs) \<Longrightarrow> flag_follows E s s'"
  unfolding finalize_filenames_def
  by (rule flag_follows_same) (auto dest: finalize_paths_fields)

lemma flag_follows_no_request:
  assumes "flag_follows E s s'" "\<forall>i. reads s \<le> i \<and> i < reads s' \<longrightarrow> \<not> cancel_requested E i"
  shows "cancelled s' = cancelled s"
  using assms by (auto simp: flag_follows_def)

lemma try_convert_never_converted:
  assumes "engine E (attempts s) file \<noteq> Converted"
  shows "\<exists>s' evs. try_convert E W file fn pp a s = (False, s', evs)
           \<and> saved_pdf_paths s' = saved_pdf_paths s"
  using assms by (auto simp: try_convert_def Let_def split: attempt_result.splits)

lemma retry_loop_never_converted:
  assumes "\<forall>n. engine E n file \<noteq> Converted"
  shows "\<exists>s' evs. retry_loop E W file fn pp as s = (False, s', evs)
           \<and> saved_pdf_paths s' = saved_pdf_paths s"
proof (induction as arbitrary: s)
  case Nil
  then show ?case by simp
next
  case (Cons a as)
  obtain c s1 where c: "is_cancelled E s = (c, s1)" by (metis surj_pair)
  have p1: "saved_pdf_paths s1 = saved_pdf_paths s" using is_cancelled_fields [OF c] by simp
  obtain s2 evs2 where t: "try_convert E W file fn pp a s1 = (False, s2, evs2)"
      "saved_pdf_paths s2 = saved_pdf_paths s1"
    using try_convert_never_converted assms by blast
  obtain s3 evs3 where r: "retry_loop E W file fn pp as s2 = (False, s3, evs3)"
      "saved_pdf_paths s3 = saved_pdf_paths s2"
    using Cons.IH by blast
  show ?case using c p1 t r by (cases c) auto
qed

lemma convert_file_never_converted:
  assumes "\<forall>n. engine E n file \<noteq> Converted" "\<forall>n. \<not> cancel_requested E n" "\<not> cancelled s"
    and "convert_file E W n file s = Inr (s', evs)"
  shows "ProgressUpdate (msg_failed (os_path_basename E file) (retries W)) \<in> set evs
         \<and> saved_pdf_paths s' = saved_pdf_paths s \<and> \<not> cancelled s'"
proof -
  obtain ok s1 evs1 s2 evs2 evs3 where p:
    "retry_loop E W file (os_path_basename E file) (pdf_path_of E W file) [1..retries W] s
       = (ok, s1, evs1)"
    "report_failure E W (os_path_basename E file) ok s1 = (s2, evs2)"
    "count_processed E n s2 = Inr (s', evs3)"
    "evs = reset_permissions E file @ evs1 @ evs2 @ evs3"
    using assms(4) by (rule convert_file_parts)
  have ok: "\<not> ok" "saved_pdf_paths s1 = saved_pdf_paths s"
    using retry_loop_never_converted [OF assms(1), of W "os_path_basename E file"
        "pdf_path_of E W file" "[1..retries W]" s] p(1) by auto
  have c1: "\<not> cancelled s1"
    using flag_follows_no_request [OF retry_loop_follows [OF p(1)]] assms(2,3) by simp
  have e2: "evs2 = [IsCancelled False,
      ProgressUpdate (msg_failed (os_path_basename E file) (retries W))]"
    using p(2) ok(1) c1 assms(2) by (auto simp: report_failure_def is_cancelled_eq)
  have c2: "\<not> cancelled s2"
    using flag_follows_no_request [OF report_failure_follows [OF p(2)]] assms(2) c1 by simp
  have c3: "\<not> cancelled s'"
    using flag_follows_no_request [OF count_processed_follows [OF p(3)]] assms(2) c2 by simp
  have "saved_pdf_paths s' = saved_pdf_paths s"
    using ok(2) report_failure_fields [OF p(2)] count_processed_fields [OF p(3)] by simp
  then show ?thesis using p(4) e2 c3 by simp
qed

lemma files_loop_never_converted:
  assumes "\<forall>n f. engine E n f \<noteq> Converted" "\<forall>n. \<not> cancel_requested E n"
  shows "\<not> cancelled s \<Longrightarrow> files_loop E W n fs s = Inr (s', evs) \<Longrightarrow>
     (\<forall>f \<in> set fs. ProgressUpdate (msg_failed (os_path_basename E f) (retries W)) \<in> set evs)
     \<and> saved_pdf_paths s' = saved_pdf_paths s \<and> \<not> cancelled s'"
proof (induction fs arbitrary: s s' evs)
  case Nil
  then show ?case by simp
next
  case (Cons f fs)
  have c: "is_cancelled E s = (False, s\<lparr>reads := reads s + 1\<rparr>)"
    using Cons.prems(1) assms(2) by (simp add: is_cancelled_eq)
  let ?s1 = "s\<lparr>reads := reads s + 1\<rparr>"
  obtain s2 evs2 where cf: "convert_file E W n f ?s1 = Inr (s2, evs2)"
    using Cons.prems(2) c by (auto split: sum.splits)
  obtain evs3 where l: "files_loop E W n fs s2 = Inr (s', evs3)"
      and e: "evs = IsCancelled False # evs2 @ evs3"
    using Cons.prems(2) c cf by (auto split: sum.splits)
  have 1: "ProgressUpdate (msg_failed (os_path_basename E f) (retries W)) \<in> set evs2
         \<and> saved_pdf_paths s2 = saved_pdf_paths ?s1 \<and> \<not> cancelled s2"
    using convert_file_never_converted [OF _ assms(2) _ cf] assms(1) Cons.prems(1) by simp
  have 2: "(\<forall>f \<in> set fs. ProgressUpdate (msg_failed (os_path_basename E f) (retries W)) \<in> set evs3)
     \<and> saved_pdf_paths s' = saved_pdf_paths s2 \<and> \<not> cancelled s'"
    using Cons.IH [OF _ l] 1 by simp
  show ?case using 1 2 e by auto
qed

section \<open>Evaluating the Windows environment\<close>

lemmas windows_simps =
  windows_def nt_basename_def nt_join_def nt_normpath_def nt_splitdrive_def is_sep_def
  bslash_def on_drive_def


lemma report_names:
  "os_path_basename (windows never always_converts) (on_drive CHR ''C'' [''out'', ''%20Report.pdf''])
     = ''%20Report.pdf''"
  "replace ''%20Report.pdf'' ''%20'' '' '' = '' Report.pdf''"
  "os_path_join (windows never always_converts) (output_dir two_files) '' Report.pdf''
     = on_drive CHR ''C'' [''out'', '' Report.pdf'']"
  "file_of (windows never always_converts) (on_drive CHR ''C'' [''out'', ''%20Report.pdf''])
     = on_drive CHR ''C'' [''out'', ''%20Report.pdf'']"
  "file_of (windows never always_converts) (on_drive CHR ''C'' [''out'', '' Report.pdf''])
     = on_drive CHR ''C'' [''out'', '' Report.pdf'']"
  "on_drive CHR ''C'' [''out'', ''%20Report.pdf''] \<noteq> on_drive CHR ''C'' [''out'', '' Report.pdf'']"
  "rename_denied (windows never always_converts) src dst = False"
  by (simp_all add: windows_simps two_files_def replace_def)

lemma in_use_names:
  "os_path_basename files_in_use (on_drive CHR ''C'' [''out'', ''%20Report.pdf''])
     = ''%20Report.pdf''"
  "os_path_join files_in_use (output_dir two_files) '' Report.pdf''
     = on_drive CHR ''C'' [''out'', '' Report.pdf'']"
  "file_of files_in_use (on_drive CHR ''C'' [''out'', ''%20Report.pdf''])
     = on_drive CHR ''C'' [''out'', ''%20Report.pdf'']"
  "file_of files_in_use (on_drive CHR ''C'' [''out'', '' Report.pdf''])
     = on_drive CHR ''C'' [''out'', '' Report.pdf'']"
  "rename_denied files_in_use src dst = True"
  "strerror files_in_use = win_strerror"
  by (simp_all add: files_in_use_def windows_simps two_files_def)
section \<open>The emitted percentages\<close>

lemma convert_file_progress:
  assumes "convert_file E W n file s = Inr (s', evs)"
  shows "(processed_files s' = processed_files s \<and> progress_values evs = [])
       \<or> (processed_files s' = processed_files s + 1
          \<and> (\<exists>v. progress_percent (processed_files s + 1) n = Inr v \<and> progress_values evs = [v]))"
proof -
  obtain ok s1 evs1 s2 evs2 evs3 where p:
    "retry_loop E W file (os_path_basename E file) (pdf_path_of E W file) [1..retries W] s
       = (ok, s1, evs1)"
    "report_failure E W (os_path_basename E file) ok s1 = (s2, evs2)"
    "count_processed E n s2 = Inr (s', evs3)"
    "evs = reset_permissions E file @ evs1 @ evs2 @ evs3"
    using assms by (rule convert_file_parts)
  have 1: "processed_files s2 = processed_files s"
      "progress_values (reset_permissions E file @ evs1 @ evs2) = []"
    using retry_loop_fields [OF p(1)] report_failure_fields [OF p(2)] reset_permissions_events
    by simp_all
  show ?thesis
    using count_processed_cases [OF p(3)] 1 unfolding p(4) by auto
qed

lemma files_loop_progress:
  "files_loop E W n fs s = Inr (s', evs) \<Longrightarrow>
     processed_files s \<le> processed_files s'
     \<and> processed_files s' \<le> processed_files s + length fs
     \<and> list_all2 (\<lambda>k v. progress_percent k n = Inr v)
          [processed_files s + 1 ..< processed_files s' + 1] (progress_values evs)"
proof (induction fs arbitrary: s s' evs)
  case Nil
  then show ?case by simp
next
  case (Cons f fs)
  obtain c s1 where c: "is_cancelled E s = (c, s1)" by (metis surj_pair)
  have p1: "processed_files s1 = processed_files s" using is_cancelled_fields [OF c] by simp
  show ?case
  proof (cases c)
    case True
    then show ?thesis using Cons.prems c p1 by auto
  next
    case False
    obtain s2 evs2 where cf: "convert_file E W n f s1 = Inr (s2, evs2)"
      using Cons.prems c False by (auto split: sum.splits)
    obtain evs3 where l: "files_loop E W n fs s2 = Inr (s', evs3)"
        and e: "evs = IsCancelled False # evs2 @ evs3"
      using Cons.prems c False cf by (auto split: sum.splits)
    note ih = Cons.IH [OF l]
    from convert_file_progress [OF cf] show ?thesis
    proof
      assume a: "processed_files s2 = processed_files s1 \<and> progress_values evs2 = []"
      then show ?thesis using ih p1 e by auto
    next
      assume a: "processed_files s2 = processed_files s1 + 1
          \<and> (\<exists>v. progress_percent (processed_files s1 + 1) n = Inr v
                \<and> progress_values evs2 = [v])"
      then obtain v where v: "progress_percent (processed_files s + 1) n = Inr v"
          "progress_values evs2 = [v]" "processed_files s2 = processed_files s + 1"
        using p1 by auto
      have "[processed_files s + 1 ..< processed_files s' + 1]
          = (processed_files s + 1) # [processed_files s2 + 1 ..< processed_files s' + 1]"
        using ih v(3) by (simp add: upt_conv_Cons)
      then show ?thesis using ih v e by auto
    qed
  qed
qed


lemma list_all2_right_source:
  "list_all2 P xs ys \<Longrightarrow> y \<in> set ys \<Longrightarrow> \<exists>x. x \<in> set xs \<and> P x y"
  by (induction rule: list_all2_induct) auto

lemma list_all2_left_image:
  "list_all2 P xs ys \<Longrightarrow> x \<in> set xs \<Longrightarrow> \<exists>y. y \<in> set ys \<and> P x y"
  by (induction rule: list_all2_induct) auto

lemma percentages_sorted:
  assumes "0 < n" "list_all2 (\<lambda>k v. progress_percent k n = Inr v) ks vs" "sorted ks"
  shows "sorted vs"
  using assms(2,3)
proof (induction ks vs rule: list_all2_induct)
  case Nil
  then show ?case by simp
next
  case (Cons k ks v vs)
  have "v \<le> v'" if vin: "v' \<in> set vs" for v'
  proof -
    obtain k' where k': "k' \<in> set ks" "progress_percent k' n = Inr v'"
      using list_all2_right_source [OF Cons.hyps(2) vin] by blast
    have "k \<le> k'" using Cons.prems k'(1) by simp
    then show ?thesis using progress_percent_mono [OF assms(1) _ Cons.hyps(1) k'(2)] by simp
  qed
  then show ?case using Cons by simp
qed

lemma percentages_range:
  assumes "0 < n" "list_all2 (\<lambda>k v. progress_percent k n = Inr v) ks vs" "\<forall>k \<in> set ks. k \<le> n"
  shows "\<forall>v \<in> set vs. 0 \<le> v \<and> v \<le> 100"
proof
  fix v assume "v \<in> set vs"
  then obtain k where k: "k \<in> set ks" "progress_percent k n = Inr v"
    using list_all2_right_source [OF assms(2)] by blast
  have "k \<le> n" using assms(3) k(1) by simp
  then have "v \<le> 100"
    using progress_percent_mono [OF assms(1) _ k(2) progress_percent_all [OF assms(1)]] by simp
  then show "0 \<le> v \<and> v \<le> 100"
    using progress_percent_nonneg [OF assms(1) k(2)] by simp
qed

lemma percentages_full:
  assumes "0 < n" "n \<le> 2 ^ 53" "list_all2 (\<lambda>k v. progress_percent k n = Inr v) ks vs"
    "\<forall>k \<in> set ks. k \<le> n"
  shows "100 \<in> set vs \<longleftrightarrow> n \<in> set ks"
proof
  assume "100 \<in> set vs"
  then obtain k where k: "k \<in> set ks" "progress_percent k n = Inr 100"
    using list_all2_right_source [OF assms(3)] by blast
  have "\<not> k < n" using progress_percent_below [OF assms(1,2) _ k(2)] by auto
  then show "n \<in> set ks" using assms(4) k(1) by (metis le_neq_implies_less)
next
  assume "n \<in> set ks"
  then obtain v where v: "v \<in> set vs" "progress_percent n n = Inr v"
    using list_all2_left_image [OF assms(3)] by blast
  then show "100 \<in> set vs" using progress_percent_all [OF assms(1)] by simp
qed

lemma conversion_complete_bar: "progress_bar (conversion_complete m w) = 100"
  by (simp add: conversion_complete_def log_message_def setValue_def)

lemma update_progress_bar:
  "0 \<le> v \<Longrightarrow> v \<le> 100 \<Longrightarrow> progress_bar (update_progress v w) = v"
  by (simp add: update_progress_def setValue_def)

lemma progress_values_Cons:
  "progress_values (e # es) =
     (case e of Progress v \<Rightarrow> v # progress_values es | _ \<Rightarrow> progress_values es)"
  by (cases e) simp_all

lemma bar_history_append:
  "bar_history w (xs @ ys) = bar_history w xs @ bar_history (foldl deliver w xs) ys"
  by (induction xs arbitrary: w) simp_all

lemma bar_history_steps:
  assumes "\<forall>m. ConversionComplete m \<notin> set evs"
    and "sorted (progress_values evs)"
    and "\<forall>v \<in> set (progress_values evs). progress_bar w \<le> v \<and> 0 \<le> v \<and> v \<le> 100"
    and "progress_bar w \<le> 100"
  shows "sorted (bar_history w evs)
         \<and> (\<forall>b \<in> set (bar_history w evs). progress_bar w \<le> b \<and> b \<le> 100)
         \<and> progress_bar (foldl deliver w evs) \<le> 100"
  using assms
proof (induction evs arbitrary: w)
  case Nil
  then show ?case by simp
next
  case (Cons e es)
  let ?w = "deliver w e"
  have nc: "\<forall>m. ConversionComplete m \<notin> set es" using Cons.prems(1) by simp
  show ?case
  proof (cases "\<exists>v. e = Progress v")
    case True
    then obtain v where e: "e = Progress v" by blast
    have v: "progress_bar w \<le> v" "0 \<le> v" "v \<le> 100"
      using Cons.prems(3) e by simp_all
    have b: "progress_bar ?w = v" using v e by (simp add: update_progress_bar)
    have s: "sorted (progress_values es)" "\<forall>x \<in> set (progress_values es). v \<le> x"
      using Cons.prems(2) e by simp_all
    have r: "\<forall>x \<in> set (progress_values es). progress_bar ?w \<le> x \<and> 0 \<le> x \<and> x \<le> 100"
      using s(2) Cons.prems(3) e b by simp
    have ih: "sorted (bar_history ?w es)
        \<and> (\<forall>b \<in> set (bar_history ?w es). progress_bar ?w \<le> b \<and> b \<le> 100)
        \<and> progress_bar (foldl deliver ?w es) \<le> 100"
      using Cons.IH [OF nc s(1) r] b v by simp
    show ?thesis using ih b v by auto
  next
    case False
    have ne: "\<forall>m. e \<noteq> ConversionComplete m" using Cons.prems(1) by auto
    have b: "progress_bar ?w = progress_bar w"
      using False ne by (cases e) (simp_all add: log_message_def)
    have pv: "progress_values (e # es) = progress_values es"
      using False by (cases e) simp_all
    have ih: "sorted (bar_history ?w es)
        \<and> (\<forall>b \<in> set (bar_history ?w es). progress_bar ?w \<le> b \<and> b \<le> 100)
        \<and> progress_bar (foldl deliver ?w es) \<le> 100"
      using Cons.IH [OF nc, of ?w] Cons.prems(2,3,4) pv b by simp
    show ?thesis using ih b Cons.prems(4) by auto
  qed
qed

lemma started_bar: "progress_bar (started w) = 0"
  by (simp add: started_def setValue_def)

lemma run_window:
  assumes "\<forall>m. ConversionComplete m \<notin> set pre"
    and "sorted (progress_values pre)"
    and "\<forall>v \<in> set (progress_values pre). 0 \<le> v \<and> v \<le> 100"
  shows "sorted (bar_history (started w) (pre @ [ConversionComplete m]))
         \<and> last (bar_history (started w) (pre @ [ConversionComplete m])) = 100"
proof -
  have "sorted (bar_history (started w) pre)
      \<and> (\<forall>b \<in> set (bar_history (started w) pre). progress_bar (started w) \<le> b \<and> b \<le> 100)
      \<and> progress_bar (foldl deliver (started w) pre) \<le> 100"
    using assms by (intro bar_history_steps) (simp_all add: started_bar)
  then show ?thesis
    by (auto simp: bar_history_append sorted_append conversion_complete_bar)
qed

section \<open>The retry loop\<close>

lemma try_convert_attempt:
  assumes "try_convert E W file fn pp a s = (ok, s', evs)"
  shows "attempts s' = attempts s + 1 \<and> length (filter is_attempt evs) = 1
       \<and> (ok \<longleftrightarrow> engine E (attempts s) file = Converted)
       \<and> count_list evs (Sleep 1) = (if ok then 0 else 1)
       \<and> last evs = (if ok then ProgressUpdate (msg_converted fn pp) else Sleep 1)
       \<and> saved_pdf_paths s' = (if ok then saved_pdf_paths s @ [pp] else saved_pdf_paths s)
       \<and> evs \<noteq> []"
  using assms
  by (auto simp: try_convert_def Let_def attempt_failed_def split: attempt_result.splits)

lemma retry_loop_attempts:
  "retry_loop E W file fn pp as s = (ok, s', evs) \<Longrightarrow>
     attempts s \<le> attempts s' \<and> attempts s' - attempts s \<le> length as
     \<and> length (filter is_attempt evs) = attempts s' - attempts s
     \<and> count_list evs (Sleep 1) = attempts s' - attempts s - (if ok then 1 else 0)
     \<and> (ok \<longrightarrow> attempts s < attempts s' \<and> engine E (attempts s' - 1) file = Converted
              \<and> last evs = ProgressUpdate (msg_converted fn pp))
     \<and> saved_pdf_paths s' = (if ok then saved_pdf_paths s @ [pp] else saved_pdf_paths s)
     \<and> (\<forall>i. attempts s \<le> i \<and> i < attempts s' - (if ok then 1 else 0)
            \<longrightarrow> engine E i file \<noteq> Converted)
     \<and> (\<not> ok \<and> \<not> cancelled s' \<longrightarrow> attempts s' - attempts s = length as)"
proof (induction as arbitrary: s ok s' evs)
  case Nil
  then show ?case by auto
next
  case (Cons a as)
  obtain c s1 where c: "is_cancelled E s = (c, s1)" by (metis surj_pair)
  note f1 = is_cancelled_fields [OF c]
  show ?case
  proof (cases c)
    case True
    then show ?thesis using Cons.prems c f1 by auto
  next
    case False
    obtain ok2 s2 evs2 where t: "try_convert E W file fn pp a s1 = (ok2, s2, evs2)"
      by (metis prod_cases3)
    note f2 = try_convert_attempt [OF t]
    show ?thesis
    proof (cases ok2)
      case True
      then have e: "ok" "s' = s2" "evs = IsCancelled False # evs2"
        using Cons.prems c t False by auto
      show ?thesis using e f1 f2 True by auto
    next
      case ok2: False
      obtain ok3 s3 evs3 where r: "retry_loop E W file fn pp as s2 = (ok3, s3, evs3)"
        by (metis prod_cases3)
      have e: "ok = ok3" "s' = s3" "evs = IsCancelled False # evs2 @ evs3"
        using Cons.prems c t r False ok2 by auto
      note ih = Cons.IH [OF r]
      have a2: "attempts s2 = attempts s + 1" using f1 f2 by simp
      have nf: "engine E (attempts s) file \<noteq> Converted" using f1 f2 ok2 by simp
      have 1: "attempts s \<le> attempts s' \<and> attempts s' - attempts s \<le> length (a # as)"
        using ih a2 e by auto
      have 2: "length (filter is_attempt evs) = attempts s' - attempts s"
        using ih a2 e f2 by auto
      have 3: "count_list evs (Sleep 1) = attempts s' - attempts s - (if ok then 1 else 0)"
        using ih a2 e f2 ok2 by auto
      have 4: "ok \<longrightarrow> attempts s < attempts s' \<and> engine E (attempts s' - 1) file = Converted
              \<and> last evs = ProgressUpdate (msg_converted fn pp)"
      proof
        assume ok
        then have "ok3" using e by simp
        then have "attempts s2 < attempts s3" "engine E (attempts s3 - 1) file = Converted"
            "last evs3 = ProgressUpdate (msg_converted fn pp)"
          using ih by auto
        moreover have "evs3 \<noteq> []" using ih \<open>ok3\<close> \<open>attempts s2 < attempts s3\<close> by auto
        ultimately show "attempts s < attempts s' \<and> engine E (attempts s' - 1) file = Converted
              \<and> last evs = ProgressUpdate (msg_converted fn pp)"
          using a2 e by auto
      qed
      have 5: "saved_pdf_paths s' = (if ok then saved_pdf_paths s @ [pp] else saved_pdf_paths s)"
        using ih e f1 f2 ok2 by auto
      have 6: "\<forall>i. attempts s \<le> i \<and> i < attempts s' - (if ok then 1 else 0)
            \<longrightarrow> engine E i file \<noteq> Converted"
      proof (intro allI impI)
        fix i assume i: "attempts s \<le> i \<and> i < attempts s' - (if ok then 1 else 0)"
        show "engine E i file \<noteq> Converted"
        proof (cases "i = attempts s")
          case True
          then show ?thesis using nf by simp
        next
          case False
          then have "attempts s2 \<le> i \<and> i < attempts s3 - (if ok3 then 1 else 0)"
            using i a2 e by auto
          then show ?thesis using ih by blast
        qed
      qed
      have 7: "\<not> ok \<and> \<not> cancelled s' \<longrightarrow> attempts s' - attempts s = length (a # as)"
        using ih a2 e by auto
      show ?thesis using 1 2 3 4 5 6 7 by blast
    qed
  qed
qed

section \<open>Cancellation\<close>

lemma no_attempt_after_cancel_append:
  assumes "no_attempt_after_cancel xs"
    and "IsCancelled True \<in> set xs \<Longrightarrow> list_all (\<lambda>e. \<not> is_attempt e) ys"
    and "IsCancelled True \<notin> set xs \<Longrightarrow> no_attempt_after_cancel ys"
  shows "no_attempt_after_cancel (xs @ ys)"
proof (cases "IsCancelled True \<in> set xs")
  case True
  then have "dropWhile (\<lambda>e. e \<noteq> IsCancelled True) (xs @ ys)
      = dropWhile (\<lambda>e. e \<noteq> IsCancelled True) xs @ ys"
    by (simp add: dropWhile_append1)
  then show ?thesis using assms(1) assms(2) [OF True]
    by (simp add: no_attempt_after_cancel_def)
next
  case False
  then have "\<forall>x \<in> set xs. x \<noteq> IsCancelled True" by auto
  then have "dropWhile (\<lambda>e. e \<noteq> IsCancelled True) (xs @ ys)
      = dropWhile (\<lambda>e. e \<noteq> IsCancelled True) ys"
    by (simp add: dropWhile_append)
  then show ?thesis using assms(3) [OF False]
    by (simp add: no_attempt_after_cancel_def)
qed

lemma no_attempt_imp: "list_all (\<lambda>e. \<not> is_attempt e) evs \<Longrightarrow> no_attempt_after_cancel evs"
  unfolding no_attempt_after_cancel_def list_all_iff
  using set_dropWhileD by fastforce

lemma no_cancel_read_imp:
  assumes "IsCancelled True \<notin> set evs"
  shows "no_attempt_after_cancel evs"
proof -
  have "\<forall>x \<in> set evs. x \<noteq> IsCancelled True" using assms by auto
  then have d: "dropWhile (\<lambda>e. e \<noteq> IsCancelled True) evs = []" by simp
  show ?thesis unfolding no_attempt_after_cancel_def d by simp
qed

lemma honours_flag_append:
  assumes "honours_flag s s1 xs" "honours_flag s1 s2 ys"
  shows "honours_flag s s2 (xs @ ys)"
proof -
  have a: "cancelled s \<longrightarrow> cancelled s2 \<and> list_all (\<lambda>e. \<not> is_attempt e) (xs @ ys)"
    using assms by (auto simp: honours_flag_def)
  have b: "IsCancelled True \<in> set (xs @ ys) \<longrightarrow> cancelled s2"
    using assms by (auto simp: honours_flag_def)
  have c: "no_attempt_after_cancel (xs @ ys)"
  proof (rule no_attempt_after_cancel_append)
    show "no_attempt_after_cancel xs" using assms(1) by (simp add: honours_flag_def)
    show "list_all (\<lambda>e. \<not> is_attempt e) ys" if "IsCancelled True \<in> set xs"
      using that assms by (auto simp: honours_flag_def)
    show "no_attempt_after_cancel ys" using assms(2) by (simp add: honours_flag_def)
  qed
  show ?thesis using a b c by (simp add: honours_flag_def)
qed

lemma honours_flag_quiet:
  assumes "list_all (\<lambda>e. \<not> is_attempt e) evs" "IsCancelled True \<in> set evs \<longrightarrow> cancelled s'"
    "cancelled s \<longrightarrow> cancelled s'"
  shows "honours_flag s s' evs"
  using assms by (simp add: honours_flag_def no_attempt_imp)

lemma is_cancelled_honours:
  "is_cancelled E s = (c, s1) \<Longrightarrow> honours_flag s s1 [IsCancelled c]"
  by (rule honours_flag_quiet) (auto simp: is_cancelled_eq)

lemma try_convert_no_read:
  "try_convert E W file fn pp a s = (ok, s', evs) \<Longrightarrow> IsCancelled b \<notin> set evs"
  by (auto simp: try_convert_def Let_def attempt_failed_def split: attempt_result.splits)

lemma guarded_attempt_honours:
  assumes "is_cancelled E s = (False, s1)" "try_convert E W file fn pp a s1 = (ok, s2, evs)"
  shows "honours_flag s s2 (IsCancelled False # evs)"
proof -
  have "\<not> cancelled s" using is_cancelled_fields [OF assms(1)] by simp
  moreover have "IsCancelled True \<notin> set (IsCancelled False # evs)"
    using try_convert_no_read [OF assms(2)] by simp
  ultimately show ?thesis
    by (simp add: honours_flag_def no_cancel_read_imp)
qed

lemma retry_loop_honours:
  "retry_loop E W file fn pp as s = (ok, s', evs) \<Longrightarrow> honours_flag s s' evs"
proof (induction as arbitrary: s ok s' evs)
  case Nil
  then show ?case by (simp add: honours_flag_def no_attempt_after_cancel_def)
next
  case (Cons a as)
  obtain c s1 where c: "is_cancelled E s = (c, s1)" by (metis surj_pair)
  show ?case
  proof (cases c)
    case True
    then show ?thesis using Cons.prems c is_cancelled_honours [OF c] by auto
  next
    case False
    obtain ok2 s2 evs2 where t: "try_convert E W file fn pp a s1 = (ok2, s2, evs2)"
      by (metis prod_cases3)
    have c': "is_cancelled E s = (False, s1)" using c False by simp
    have g: "honours_flag s s2 (IsCancelled False # evs2)"
      by (rule guarded_attempt_honours [OF c' t])
    show ?thesis
    proof (cases ok2)
      case True
      then show ?thesis using Cons.prems c t False g by auto
    next
      case ok2: False
      obtain ok3 s3 evs3 where r: "retry_loop E W file fn pp as s2 = (ok3, s3, evs3)"
        by (metis prod_cases3)
      have e: "s' = s3" "evs = (IsCancelled False # evs2) @ evs3"
        using Cons.prems c t r False ok2 by auto
      show ?thesis unfolding e
        using g Cons.IH [OF r] by (rule honours_flag_append)
    qed
  qed
qed

lemma report_failure_honours:
  "report_failure E W fn ok s = (s', evs) \<Longrightarrow> honours_flag s s' evs"
  by (rule honours_flag_quiet)
     (auto simp: report_failure_def is_cancelled_eq split: if_splits)

lemma count_processed_honours:
  "count_processed E n s = Inr (s', evs) \<Longrightarrow> honours_flag s s' evs"
  by (rule honours_flag_quiet)
     (auto simp: count_processed_def is_cancelled_eq Let_def split: if_splits sum.splits)

lemma reset_permissions_honours: "honours_flag s s (reset_permissions E file)"
  by (rule honours_flag_quiet) (auto simp: reset_permissions_def split: option.splits)

lemma convert_file_honours:
  assumes "convert_file E W n file s = Inr (s', evs)"
  shows "honours_flag s s' evs"
proof -
  obtain ok s1 evs1 s2 evs2 evs3 where p:
    "retry_loop E W file (os_path_basename E file) (pdf_path_of E W file) [1..retries W] s
       = (ok, s1, evs1)"
    "report_failure E W (os_path_basename E file) ok s1 = (s2, evs2)"
    "count_processed E n s2 = Inr (s', evs3)"
    "evs = reset_permissions E file @ evs1 @ evs2 @ evs3"
    using assms by (rule convert_file_parts)
  show ?thesis unfolding p(4)
    by (intro honours_flag_append [OF reset_permissions_honours]
        honours_flag_append [OF retry_loop_honours [OF p(1)]]
        honours_flag_append [OF report_failure_honours [OF p(2)]]
        count_processed_honours [OF p(3)])
qed

lemma files_loop_honours:
  "files_loop E W n fs s = Inr (s', evs) \<Longrightarrow> honours_flag s s' evs"
proof (induction fs arbitrary: s s' evs)
  case Nil
  then show ?case by (simp add: honours_flag_def no_attempt_after_cancel_def)
next
  case (Cons f fs)
  obtain c s1 where c: "is_cancelled E s = (c, s1)" by (metis surj_pair)
  note h = is_cancelled_honours [OF c]
  show ?case
  proof (cases c)
    case True
    have "honours_flag s1 s1 [ProgressUpdate msg_cancelled_by_user]"
      by (rule honours_flag_quiet) simp_all
    then have "honours_flag s s1 ([IsCancelled c] @ [ProgressUpdate msg_cancelled_by_user])"
      using h by (rule honours_flag_append [rotated])
    then show ?thesis using Cons.prems c True by simp
  next
    case False
    obtain s2 evs2 where cf: "convert_file E W n f s1 = Inr (s2, evs2)"
      using Cons.prems c False by (auto split: sum.splits)
    obtain evs3 where l: "files_loop E W n fs s2 = Inr (s', evs3)"
        and e: "evs = [IsCancelled c] @ evs2 @ evs3"
      using Cons.prems c False cf by (auto split: sum.splits)
    show ?thesis unfolding e
      by (intro honours_flag_append [OF h] honours_flag_append [OF convert_file_honours [OF cf]]
          Cons.IH [OF l])
  qed
qed

lemma finalize_event_quiet:
  "list_all finalize_event evs \<Longrightarrow>
     list_all (\<lambda>e. \<not> is_attempt e) evs \<and> IsCancelled True \<notin> set evs"
  by (induction evs rule: progress_values.induct) auto

lemma convert_files_honours:
  assumes "convert_files E W s = Inr (s', tr)"
  shows "honours_flag s s' tr"
proof -
  obtain s1 body s2 fin c s3 where p:
    "files_loop E W (length (files W)) (files W) s = Inr (s1, body)"
    "finalize_filenames E W s1 = (s2, fin)"
    "is_cancelled E s2 = (c, s3)"
    "convert_files E W s =
       Inr (s3, [CoInitialize, Dispatch ''Excel.Application'', SetVisible False]
                 @ body @ [Quit, CoUninitialize] @ fin
                 @ [IsCancelled c, ConversionComplete (terminal_message c)])"
    by (rule convert_files_parts)
  have f: "list_all finalize_event fin"
    using p(2) unfolding finalize_filenames_def by (rule finalize_paths_events)
  have c12: "cancelled s2 = cancelled s1"
    using finalize_paths_fields [OF p(2) [unfolded finalize_filenames_def]] by simp
  have h0: "honours_flag s s [CoInitialize, Dispatch ''Excel.Application'', SetVisible False]"
    by (rule honours_flag_quiet) simp_all
  have h1: "honours_flag s s1 body" using p(1) by (rule files_loop_honours)
  have h2: "honours_flag s1 s1 [Quit, CoUninitialize]"
    by (rule honours_flag_quiet) simp_all
  have h3: "honours_flag s1 s2 fin"
    using finalize_event_quiet [OF f] c12 by (intro honours_flag_quiet) simp_all
  have h4: "honours_flag s2 s3 [IsCancelled c]" using p(3) by (rule is_cancelled_honours)
  have h5: "honours_flag s3 s3 [ConversionComplete (terminal_message c)]"
    by (rule honours_flag_quiet) simp_all
  have "honours_flag s s3
      ([CoInitialize, Dispatch ''Excel.Application'', SetVisible False]
        @ body @ [Quit, CoUninitialize] @ fin @ [IsCancelled c]
        @ [ConversionComplete (terminal_message c)])"
    by (intro honours_flag_append [OF h0] honours_flag_append [OF h1]
        honours_flag_append [OF h2] honours_flag_append [OF h3]
        honours_flag_append [OF h4] h5)
  then show ?thesis using assms p(4) by simp
qed

lemma retry_loop_failing_attempts:
  assumes "\<forall>i < length as1. engine E (attempts s + i) file \<noteq> Converted"
    and "\<not> cancelled s"
    and "\<forall>i < length as1. \<not> cancel_requested E (reads s + i)"
  shows "\<exists>s1 mid.
      (\<forall>as2. retry_loop E W file fn pp (as1 @ as2) s
          = (case retry_loop E W file fn pp as2 s1 of (ok, s2, evs) \<Rightarrow> (ok, s2, mid @ evs)))
      \<and> reads s1 = reads s + length as1 \<and> attempts s1 = attempts s + length as1
      \<and> \<not> cancelled s1 \<and> processed_files s1 = processed_files s
      \<and> length (filter is_attempt mid) = length as1 \<and> IsCancelled True \<notin> set mid"
  using assms
proof (induction as1 arbitrary: s)
  case Nil
  have "\<forall>as2. retry_loop E W file fn pp ([] @ as2) s
          = (case retry_loop E W file fn pp as2 s of (ok, s2, evs) \<Rightarrow> (ok, s2, [] @ evs))"
    by (simp add: split_beta)
  then show ?case using Nil.prems(2)
    by (intro exI [of _ s] exI [of _ "[]"]) simp
next
  case (Cons a as1)
  let ?s1 = "s\<lparr>reads := reads s + 1\<rparr>"
  have c: "is_cancelled E s = (False, ?s1)"
    using Cons.prems(2,3) by (auto simp: is_cancelled_eq)
  have nf: "engine E (attempts ?s1) file \<noteq> Converted" using Cons.prems(1) by auto
  obtain s2 evs2 where t: "try_convert E W file fn pp a ?s1 = (False, s2, evs2)"
    using try_convert_never_converted [OF nf] by blast
  note f2 = try_convert_fields [OF t] try_convert_attempt [OF t] try_convert_no_read [OF t]
  have p1: "\<forall>i < length as1. engine E (attempts s2 + i) file \<noteq> Converted"
  proof (intro allI impI)
    fix i assume "i < length as1"
    then have "Suc i < length (a # as1)" by simp
    then have "engine E (attempts s + Suc i) file \<noteq> Converted" using Cons.prems(1) by blast
    then show "engine E (attempts s2 + i) file \<noteq> Converted" using f2(4) by simp
  qed
  have p2: "\<not> cancelled s2" using f2(1) Cons.prems(2) by simp
  have p3: "\<forall>i < length as1. \<not> cancel_requested E (reads s2 + i)"
  proof (intro allI impI)
    fix i assume "i < length as1"
    then have "Suc i < length (a # as1)" by simp
    then have "\<not> cancel_requested E (reads s + Suc i)" using Cons.prems(3) by blast
    then show "\<not> cancel_requested E (reads s2 + i)" using f2(2) by simp
  qed
  obtain s3 mid where ih:
    "\<forall>as2. retry_loop E W file fn pp (as1 @ as2) s2
        = (case retry_loop E W file fn pp as2 s3 of (ok, s4, evs) \<Rightarrow> (ok, s4, mid @ evs))"
    "reads s3 = reads s2 + length as1" "attempts s3 = attempts s2 + length as1"
    "\<not> cancelled s3" "processed_files s3 = processed_files s2"
    "length (filter is_attempt mid) = length as1" "IsCancelled True \<notin> set mid"
    using Cons.IH [OF p1 p2 p3] by blast
  let ?mid = "IsCancelled False # evs2 @ mid"
  have step: "retry_loop E W file fn pp ((a # as1) @ as2) s
      = (case retry_loop E W file fn pp as2 s3 of (ok, s4, evs) \<Rightarrow> (ok, s4, ?mid @ evs))" for as2
    using c t ih(1) by (simp add: split_beta)
  have "reads s3 = reads s + length (a # as1)" "attempts s3 = attempts s + length (a # as1)"
      "processed_files s3 = processed_files s"
      "length (filter is_attempt ?mid) = length (a # as1)" "IsCancelled True \<notin> set ?mid"
    using ih f2 by simp_all
  then show ?case using step ih(4) by blast
qed

lemma cancelled_mid_retry:
  assumes files: "files W = [f1, f2, f3]"
    and first: "convert_file E W 3 f1 ((init_state d)\<lparr>reads := 1\<rparr>) = Inr (s1, evs1)"
    and j: "0 < j" "int j < retries W"
    and req: "cancel_requested E (reads s1 + 1 + j)"
    and noreq: "\<forall>i < reads s1 + 1 + j. \<not> cancel_requested E i"
    and fails: "\<forall>i < j. engine E (attempts s1 + i) f2 \<noteq> Converted"
  shows "\<exists>s' pre v mid fin.
      convert_files E W (init_state d)
        = Inr (s',
               [CoInitialize, Dispatch ''Excel.Application'', SetVisible False,
                IsCancelled False] @ evs1
               @ [IsCancelled False] @ reset_permissions E f2 @ mid
               @ [IsCancelled True, IsCancelled True, IsCancelled True,
                  IsCancelled True, ProgressUpdate ''Conversion cancelled by user.'',
                  Quit, CoUninitialize] @ fin
               @ [IsCancelled True, ConversionComplete ''Conversion cancelled.''])
      \<and> evs1 = pre @ [IsCancelled False, Progress v] \<and> processed_files s1 = 1
      \<and> length (filter is_attempt mid) = j \<and> IsCancelled True \<notin> set mid
      \<and> attempts s' = attempts s1 + j \<and> processed_files s' = 1
      \<and> list_all finalize_event fin"
proof -
  let ?s0 = "init_state d"
  let ?s0' = "(init_state d)\<lparr>reads := 1\<rparr>"
  let ?fn = "os_path_basename E f2"
  let ?pp = "pdf_path_of E W f2"
  have r0: "\<not> cancel_requested E 0" using noreq by simp
  have c0: "is_cancelled E ?s0 = (False, ?s0')"
    using r0 by (simp add: is_cancelled_eq init_state_def)
  \<comment> \<open>the first file\<close>
  have ff1: "flag_follows E ?s0' s1" using first by (rule convert_file_follows)
  have rs1: "1 \<le> reads s1" using ff1 by (simp add: flag_follows_def)
  have nc1: "\<not> cancelled s1"
    using flag_follows_no_request [OF ff1] noreq by (simp add: init_state_def)
  obtain ok1 t1 e1 t2 e2 e3 where p1:
    "retry_loop E W f1 (os_path_basename E f1) (pdf_path_of E W f1) [1..retries W] ?s0'
       = (ok1, t1, e1)"
    "report_failure E W (os_path_basename E f1) ok1 t1 = (t2, e2)"
    "count_processed E 3 t2 = Inr (s1, e3)"
    "evs1 = reset_permissions E f1 @ e1 @ e2 @ e3"
    using first by (rule convert_file_parts)
  have pt2: "processed_files t2 = 0"
    using retry_loop_fields [OF p1(1)] report_failure_fields [OF p1(2)]
    by (simp add: init_state_def)
  obtain v where v: "e3 = [IsCancelled False, Progress v]" "processed_files s1 = 1"
    using count_processed_cases [OF p1(3)] nc1 pt2 by auto
  have evs1: "evs1 = (reset_permissions E f1 @ e1 @ e2) @ [IsCancelled False, Progress v]"
    using p1(4) v(1) by simp
  \<comment> \<open>the second file: \<open>j\<close> failed attempts, then the flag is found set\<close>
  obtain c1 s1' where c1: "is_cancelled E s1 = (c1, s1')" by (metis surj_pair)
  note f1 = is_cancelled_fields [OF c1]
  have c1F: "\<not> c1" using f1(2) nc1 noreq by simp
  have split: "[1..retries W] = [1..int j] @ (int j + 1) # [int j + 2..retries W]"
  proof -
    have "[1..retries W] = [1..int j] @ [int j + 1..retries W]"
      using j by (simp add: upto_split2)
    also have "[int j + 1..retries W] = (int j + 1) # [int j + 2..retries W]"
      using j by (simp add: upto_rec1 add.commute)
    finally show ?thesis .
  qed
  have len: "length [1..int j] = j" by simp
  obtain s2 mid where pre:
    "\<forall>as2. retry_loop E W f2 ?fn ?pp ([1..int j] @ as2) s1'
        = (case retry_loop E W f2 ?fn ?pp as2 s2 of (ok, s, evs) \<Rightarrow> (ok, s, mid @ evs))"
    "reads s2 = reads s1' + length [1..int j]" "attempts s2 = attempts s1' + length [1..int j]"
    "\<not> cancelled s2" "processed_files s2 = processed_files s1'"
    "length (filter is_attempt mid) = length [1..int j]" "IsCancelled True \<notin> set mid"
    using retry_loop_failing_attempts [of "[1..int j]" E s1' f2 W ?fn ?pp]
      fails noreq f1 c1F nc1 unfolding len by auto
  obtain c2 s3 where c2: "is_cancelled E s2 = (c2, s3)" by (metis surj_pair)
  note f2 = is_cancelled_fields [OF c2]
  have c2T: "c2" using f2(2) pre(2) f1(3) req unfolding len by simp
  have loop: "retry_loop E W f2 ?fn ?pp [1..retries W] s1' = (False, s3, mid @ [IsCancelled True])"
    unfolding split using pre(1) c2 c2T by simp
  obtain c3 s4 where c3: "is_cancelled E s3 = (c3, s4)" by (metis surj_pair)
  note f3 = is_cancelled_fields [OF c3]
  have c3T: "c3" using f3(2) f2(1) c2T by simp
  have rep: "report_failure E W ?fn False s3 = (s4, [IsCancelled True])"
    using c3 c3T by (simp add: report_failure_def)
  obtain c4 s5 where c4: "is_cancelled E s4 = (c4, s5)" by (metis surj_pair)
  note f4 = is_cancelled_fields [OF c4]
  have c4T: "c4" using f4(2) f3(1) c3T by simp
  have cnt: "count_processed E 3 s4 = Inr (s5, [IsCancelled True])"
    using c4 c4T by (simp add: count_processed_def)
  have second: "convert_file E W 3 f2 s1'
      = Inr (s5, reset_permissions E f2 @ (mid @ [IsCancelled True]) @ [IsCancelled True]
                   @ [IsCancelled True])"
    by (simp add: convert_file_def Let_def loop rep cnt)
  \<comment> \<open>the third file is not started\<close>
  obtain c5 s6 where c5: "is_cancelled E s5 = (c5, s6)" by (metis surj_pair)
  note f5 = is_cancelled_fields [OF c5]
  have c5T: "c5" using f5(2) f4(1) c4T by simp
  have n3: "length [f1, f2, f3] = 3" by simp
  have body: "files_loop E W (length (files W)) (files W) ?s0
      = Inr (s6, IsCancelled False # evs1
                  @ IsCancelled False # (reset_permissions E f2 @ (mid @ [IsCancelled True])
                      @ [IsCancelled True] @ [IsCancelled True])
                  @ [IsCancelled True, ProgressUpdate msg_cancelled_by_user])"
    unfolding files n3 using c0 first c1 c1F second c5 c5T by simp
  obtain s7 fin where fin: "finalize_filenames E W s6 = (s7, fin)" by (metis surj_pair)
  note f6 = finalize_paths_fields [OF fin [unfolded finalize_filenames_def]]
  have fe: "list_all finalize_event fin"
    using fin unfolding finalize_filenames_def by (rule finalize_paths_events)
  obtain c7 s8 where c7: "is_cancelled E s7 = (c7, s8)" by (metis surj_pair)
  note f7 = is_cancelled_fields [OF c7]
  have c7T: "c7" using f7(2) f6 f5(1) c5T by simp
  have run: "convert_files E W ?s0
      = Inr (s8,
             [CoInitialize, Dispatch ''Excel.Application'', SetVisible False,
              IsCancelled False] @ evs1
             @ [IsCancelled False] @ reset_permissions E f2 @ mid
             @ [IsCancelled True, IsCancelled True, IsCancelled True,
                IsCancelled True, ProgressUpdate ''Conversion cancelled by user.'',
                Quit, CoUninitialize] @ fin
             @ [IsCancelled True, ConversionComplete ''Conversion cancelled.''])"
    using c7T
    by (simp add: convert_files_def body fin c7 terminal_message_def msg_cancelled_def
        msg_cancelled_by_user_def)
  have a8: "attempts s8 = attempts s1 + j"
    using f7 f6 f5 f4 f3 f2 pre(3) f1 by (simp add: len)
  have p8: "processed_files s8 = 1"
    using f7 f6 f5 f4 f3 f2 pre(5) f1 v(2) by simp
  show ?thesis
    using run evs1 v(2) pre(6,7) a8 p8 fe unfolding len by blast
qed

section \<open>What \<open>replace\<close> does to a name\<close>

lemma split_from_nonempty: "split_from s old \<noteq> []"
  by (induction s old rule: split_from.induct) (auto split: list.splits)

lemma str_join_Cons_nonempty:
  "us \<noteq> [] \<Longrightarrow> str_join sep (u # us) = u @ sep @ str_join sep us"
  by (cases us) simp_all

lemma str_join_split_old:
  "old \<noteq> [] \<Longrightarrow> str_join old (split_from s old) = s"
proof (induction s old rule: split_from.induct)
  case (1 old)
  then show ?case by simp
next
  case (2 c cs old)
  show ?case
  proof (cases "prefix old (c # cs)")
    case True
    let ?rest = "drop (length old) (c # cs)"
    have e: "split_from (c # cs) old = [] # split_from ?rest old"
      using "2.prems" True by simp
    have ih: "str_join old (split_from ?rest old) = ?rest"
      using "2.IH"(1) "2.prems" True by simp
    have "old @ ?rest = c # cs"
      using True by (metis append_eq_conv_conj prefix_def)
    moreover have "str_join old ([] # split_from ?rest old)
        = old @ str_join old (split_from ?rest old)"
      using split_from_nonempty by (simp add: str_join_Cons_nonempty)
    ultimately show ?thesis unfolding e ih by simp
  next
    case False
    obtain u us where s: "split_from cs old = u # us"
      using split_from_nonempty [of cs old] by (cases "split_from cs old") auto
    have "str_join old ((c # u) # us) = c # str_join old (u # us)"
      by (cases us) simp_all
    then show ?thesis using 2 False s by simp
  qed
qed

lemma str_join_split_new:
  "old \<noteq> [] \<Longrightarrow> str_join new (split_from s old) = replace_from s old new"
proof (induction s old rule: split_from.induct)
  case (1 old)
  then show ?case by simp
next
  case (2 c cs old)
  show ?case
  proof (cases "prefix old (c # cs)")
    case True
    have "str_join new ([] # split_from (drop (length old) (c # cs)) old)
        = new @ str_join new (split_from (drop (length old) (c # cs)) old)"
      using split_from_nonempty by (simp add: str_join_Cons_nonempty)
    then show ?thesis using 2 True by simp
  next
    case False
    obtain u us where s: "split_from cs old = u # us"
      using split_from_nonempty [of cs old] by (cases "split_from cs old") auto
    have "str_join new ((c # u) # us) = c # str_join new (u # us)"
      by (cases us) simp_all
    then show ?thesis using 2 False s by simp
  qed
qed

lemma hd_split_prefix: "prefix (hd (split_from s old)) s"
  by (induction s old rule: split_from.induct) (auto split: list.splits)

lemma contains_iff: "contains s sub \<longleftrightarrow> (\<exists>pre post. s = pre @ sub @ post)"
proof (induction s)
  case Nil
  then show ?case by auto
next
  case (Cons c cs)
  show ?case
  proof
    assume "contains (c # cs) sub"
    then consider "prefix sub (c # cs)" | "contains cs sub" by auto
    then show "\<exists>pre post. c # cs = pre @ sub @ post"
    proof cases
      case 1
      then obtain post where "c # cs = sub @ post" by (auto simp: prefix_def)
      then have "c # cs = [] @ sub @ post" by simp
      then show ?thesis by blast
    next
      case 2
      then obtain pre post where "cs = pre @ sub @ post" using Cons.IH by blast
      then have "c # cs = (c # pre) @ sub @ post" by simp
      then show ?thesis by blast
    qed
  next
    assume "\<exists>pre post. c # cs = pre @ sub @ post"
    then obtain pre post where e: "c # cs = pre @ sub @ post" by blast
    show "contains (c # cs) sub"
    proof (cases pre)
      case Nil
      then have "prefix sub (c # cs)" using e by (simp add: prefix_def)
      then show ?thesis by simp
    next
      case (Cons p pre')
      then have "cs = pre' @ sub @ post" using e by simp
      then show ?thesis using Cons.IH by auto
    qed
  qed
qed

lemma split_from_pieces:
  "old \<noteq> [] \<Longrightarrow> \<forall>u \<in> set (split_from s old). \<not> contains u old"
proof (induction s old rule: split_from.induct)
  case (1 old)
  then show ?case by simp
next
  case (2 c cs old)
  show ?case
  proof (cases "prefix old (c # cs)")
    case True
    then show ?thesis using 2 by auto
  next
    case False
    obtain u us where s: "split_from cs old = u # us"
      using split_from_nonempty [of cs old] by (cases "split_from cs old") auto
    have ih: "\<forall>v \<in> set (u # us). \<not> contains v old" using 2 False s by auto
    have "prefix u cs" using hd_split_prefix [of cs old] s by simp
    then have "prefix (c # u) (c # cs)" by simp
    then have "\<not> prefix old (c # u)" using False prefix_order.trans by blast
    then have "\<not> contains (c # u) old" using ih by simp
    then show ?thesis using 2 False s ih by auto
  qed
qed

lemma replace_from_unchanged:
  "\<not> contains s old \<Longrightarrow> replace_from s old new = s"
  by (induction s old new rule: replace_from.induct) auto

lemma replace_from_match:
  "old \<noteq> [] \<Longrightarrow> prefix old (c # cs) \<Longrightarrow>
     replace_from (c # cs) old new = new @ replace_from (drop (length old) (c # cs)) old new"
  by simp

lemma replace_from_skip:
  "\<not> prefix old (c # cs) \<Longrightarrow> replace_from (c # cs) old new = c # replace_from cs old new"
  by simp

lemma replace_head:
  "replace_from s ''%20'' '' '' = [] \<and> s = []
   \<or> (\<exists>r. replace_from s ''%20'' '' '' = CHR '' '' # r \<and> prefix ''%20'' s)
   \<or> (\<exists>c cs. s = c # cs \<and> \<not> prefix ''%20'' s
          \<and> replace_from s ''%20'' '' '' = c # replace_from cs ''%20'' '' '')"
proof (cases s)
  case Nil
  then show ?thesis by simp
next
  case (Cons c cs)
  show ?thesis
  proof (cases "prefix ''%20'' (c # cs)")
    case True
    have "replace_from (c # cs) ''%20'' '' ''
        = '' '' @ replace_from (drop (length ''%20'') (c # cs)) ''%20'' '' ''"
      by (rule replace_from_match [OF _ True]) simp
    then show ?thesis using True Cons by auto
  next
    case False
    have "replace_from (c # cs) ''%20'' '' '' = c # replace_from cs ''%20'' '' ''"
      by (rule replace_from_skip [OF False])
    then show ?thesis using False Cons by blast
  qed
qed

lemma replace_head_0:
  assumes "prefix ''0'' (replace_from s ''%20'' '' '')"
  shows "prefix ''0'' s"
  using replace_head [of s]
proof (elim disjE exE conjE)
  assume "replace_from s ''%20'' '' '' = []"
  then show ?thesis using assms by simp
next
  fix r assume "replace_from s ''%20'' '' '' = CHR '' '' # r"
  then show ?thesis using assms by simp
next
  fix c cs assume "s = c # cs" "replace_from s ''%20'' '' '' = c # replace_from cs ''%20'' '' ''"
  then show ?thesis using assms by simp
qed

lemma replace_head_20:
  assumes "prefix ''20'' (replace_from s ''%20'' '' '')"
  shows "prefix ''20'' s"
  using replace_head [of s]
proof (elim disjE exE conjE)
  assume "replace_from s ''%20'' '' '' = []"
  then show ?thesis using assms by simp
next
  fix r assume "replace_from s ''%20'' '' '' = CHR '' '' # r"
  then show ?thesis using assms by simp
next
  fix c cs assume a: "s = c # cs" "replace_from s ''%20'' '' '' = c # replace_from cs ''%20'' '' ''"
  from assms have "prefix ''20'' (c # replace_from cs ''%20'' '' '')"
    unfolding a(2) .
  then have "CHR ''2'' = c \<and> prefix ''0'' (replace_from cs ''%20'' '' '')"
    by (rule iffD1 [OF Cons_prefix_Cons])
  then have c2: "c = CHR ''2''" and "prefix ''0'' cs"
    using replace_head_0 by blast+
  then have "prefix ''20'' (CHR ''2'' # cs)" by simp
  then show ?thesis unfolding a(1) c2 .
qed

lemma replace_removes_all:
  "\<not> contains (replace_from s ''%20'' '' '') ''%20''"
proof (induction s "''%20''" "'' ''" rule: replace_from.induct)
  case 1
  then show ?case by simp
next
  case (2 c cs)
  show ?case
  proof (cases "prefix ''%20'' (c # cs)")
    case True
    let ?rest = "drop (length ''%20'') (c # cs)"
    have e: "replace_from (c # cs) ''%20'' '' '' = '' '' @ replace_from ?rest ''%20'' '' ''"
      by (rule replace_from_match [OF _ True]) simp
    have ih: "\<not> contains (replace_from ?rest ''%20'' '' '') ''%20''"
      using "2.hyps"(1) True by blast
    show ?thesis unfolding e using ih by simp
  next
    case False
    have e: "replace_from (c # cs) ''%20'' '' '' = c # replace_from cs ''%20'' '' ''"
      by (rule replace_from_skip [OF False])
    have ih: "\<not> contains (replace_from cs ''%20'' '' '') ''%20''"
      using "2.hyps"(2) False by blast
    have "\<not> prefix ''%20'' (c # replace_from cs ''%20'' '' '')"
    proof
      assume "prefix ''%20'' (c # replace_from cs ''%20'' '' '')"
      then have "CHR ''%'' = c \<and> prefix ''20'' (replace_from cs ''%20'' '' '')"
        by (rule iffD1 [OF Cons_prefix_Cons])
      then have c2: "c = CHR ''%''" and "prefix ''20'' cs"
        using replace_head_20 by blast+
      then have "prefix ''%20'' (CHR ''%'' # cs)" by simp
      then have "prefix ''%20'' (c # cs)" unfolding c2 .
      then show False using False by blast
    qed
    then show ?thesis unfolding e using ih by simp
  qed
qed

lemma replace_pct20:
  "replace s ''%20'' '' '' = replace_from s ''%20'' '' ''"
  by (simp add: replace_def)

lemma new_name_spec:
  "\<not> contains (replace s ''%20'' '' '') ''%20''
   \<and> s = str_join ''%20'' (split_from s ''%20'')
   \<and> replace s ''%20'' '' '' = str_join '' '' (split_from s ''%20'')
   \<and> (\<forall>u \<in> set (split_from s ''%20''). \<not> contains u ''%20'')
   \<and> (\<not> contains s ''%20'' \<longrightarrow> replace s ''%20'' '' '' = s)"
  using replace_removes_all [of s] str_join_split_old [of "''%20''" s]
    str_join_split_new [of "''%20''" "'' ''" s] split_from_pieces [of "''%20''" s]
    replace_from_unchanged [of s "''%20''" "'' ''"]
  by (simp add: replace_pct20)

section \<open>A second pass of the finalization\<close>

lemma finalize_filename_unfold:
  assumes "new_pdf_path_of E W p = n"
  shows "finalize_filename E W p s =
     (if p = n then (s, [])
      else if file_of E p \<notin> disk s
      then (s, [ProgressUpdate (msg_not_found (os_path_basename E p))])
      else if rename_denied E p n
      then (s, [ProgressUpdate
                  (msg_rename_failed (os_path_basename E p)
                     (strerror E PermissionError p n))])
      else if file_of E n = file_of E p
      then (s, [OsRename p n,
                ProgressUpdate (msg_renamed (os_path_basename E p)
                                  (replace (os_path_basename E p) ''%20'' '' ''))])
      else if file_of E n \<in> disk s
      then (s, [ProgressUpdate
                  (msg_rename_failed (os_path_basename E p)
                     (strerror E FileExistsError p n))])
      else (s\<lparr>disk := insert (file_of E n) (disk s - {file_of E p})\<rparr>,
            [OsRename p n,
             ProgressUpdate (msg_renamed (os_path_basename E p)
                               (replace (os_path_basename E p) ''%20'' '' ''))]))"
  using assms [symmetric]
  by (simp add: finalize_filename_def new_pdf_path_of_def Let_def os_path_exists_def
      os_rename_def)

lemma finalize_filename_settled:
  assumes "settled E W (disk s) p"
  shows "\<exists>evs. finalize_filename E W p s = (s, evs)
           \<and> (\<forall>src dst. OsRename src dst \<in> set evs
                 \<longrightarrow> src = p \<and> dst = new_pdf_path_of E W p \<and> src \<noteq> dst
                     \<and> file_of E src = file_of E dst)"
proof -
  obtain n where n: "new_pdf_path_of E W p = n" by simp
  have "file_of E p \<notin> disk s \<or> rename_denied E p n
         \<or> file_of E n = file_of E p \<or> file_of E n \<in> disk s"
    using assms unfolding settled_def n .
  then show ?thesis
    unfolding finalize_filename_unfold [OF n] n by auto
qed

lemma finalize_filename_disk:
  assumes "finalize_filename E W p s = (s', evs)"
  shows "disk s' = disk s \<and> settled E W (disk s) p
         \<or> (file_of E p \<in> disk s
            \<and> file_of E (new_pdf_path_of E W p) \<notin> disk s
            \<and> file_of E (new_pdf_path_of E W p) \<noteq> file_of E p
            \<and> disk s' = insert (file_of E (new_pdf_path_of E W p)) (disk s - {file_of E p}))"
proof -
  obtain n where n: "new_pdf_path_of E W p = n" by simp
  have "disk s' = disk s
           \<and> (file_of E p \<notin> disk s \<or> rename_denied E p n
                \<or> file_of E n = file_of E p \<or> file_of E n \<in> disk s)
         \<or> (file_of E p \<in> disk s \<and> file_of E n \<notin> disk s \<and> file_of E n \<noteq> file_of E p
            \<and> disk s' = insert (file_of E n) (disk s - {file_of E p}))"
    using assms unfolding finalize_filename_unfold [OF n]
    by (auto split: if_splits)
  then show ?thesis unfolding settled_def n .
qed

lemma settled_after_rename:
  assumes "fq \<notin> d \<or> dq \<or> nq = fq \<or> nq \<in> d"
    and "fq = np \<longrightarrow> nq = fq"
    and "fp = nq \<longrightarrow> np = fp"
    and "np \<noteq> fp"
  shows "fq \<notin> insert np (d - {fp}) \<or> dq \<or> nq = fq \<or> nq \<in> insert np (d - {fp})"
  using assms by blast

lemma finalize_filename_settles:
  assumes "finalize_filename E W p s = (s', evs)"
  shows "settled E W (disk s') p"
  using finalize_filename_disk [OF assms]
proof (elim disjE conjE)
  assume "disk s' = disk s" "settled E W (disk s) p"
  then show ?thesis by simp
next
  assume a: "file_of E (new_pdf_path_of E W p) \<noteq> file_of E p"
    "disk s' = insert (file_of E (new_pdf_path_of E W p)) (disk s - {file_of E p})"
  have "file_of E p \<notin> disk s'" unfolding a(2) using a(1) by auto
  then show ?thesis unfolding settled_def by blast
qed

lemma finalize_filename_keeps_settled:
  assumes f: "finalize_filename E W p s = (s', evs)"
    and q: "settled E W (disk s) q"
    and pq: "file_of E q = file_of E (new_pdf_path_of E W p)
             \<longrightarrow> file_of E (new_pdf_path_of E W q) = file_of E q"
    and qp: "file_of E p = file_of E (new_pdf_path_of E W q)
             \<longrightarrow> file_of E (new_pdf_path_of E W p) = file_of E p"
  shows "settled E W (disk s') q"
  using finalize_filename_disk [OF f]
proof (elim disjE conjE)
  assume "disk s' = disk s"
  then show ?thesis using q by simp
next
  assume a: "file_of E (new_pdf_path_of E W p) \<noteq> file_of E p"
    "disk s' = insert (file_of E (new_pdf_path_of E W p)) (disk s - {file_of E p})"
  show ?thesis
    unfolding settled_def a(2)
    by (rule settled_after_rename [OF q [unfolded settled_def] pq qp a(1)])
qed

lemma finalize_paths_settled:
  assumes "\<forall>p \<in> set ps. settled E W (disk s) p"
  shows "\<exists>evs. finalize_paths E W ps s = (s, evs)
           \<and> (\<forall>src dst. OsRename src dst \<in> set evs
                 \<longrightarrow> src \<in> set ps \<and> dst = new_pdf_path_of E W src \<and> src \<noteq> dst
                     \<and> file_of E src = file_of E dst)"
  using assms
proof (induction ps)
  case Nil
  then show ?case by simp
next
  case (Cons p ps)
  have "settled E W (disk s) p" using Cons.prems by simp
  then obtain evs1 where 1: "finalize_filename E W p s = (s, evs1)"
    "\<forall>src dst. OsRename src dst \<in> set evs1
        \<longrightarrow> src = p \<and> dst = new_pdf_path_of E W p \<and> src \<noteq> dst
            \<and> file_of E src = file_of E dst"
    using finalize_filename_settled by blast
  have "\<forall>p \<in> set ps. settled E W (disk s) p" using Cons.prems by simp
  then obtain evs2 where 2: "finalize_paths E W ps s = (s, evs2)"
    "\<forall>src dst. OsRename src dst \<in> set evs2
        \<longrightarrow> src \<in> set ps \<and> dst = new_pdf_path_of E W src \<and> src \<noteq> dst
            \<and> file_of E src = file_of E dst"
    using Cons.IH by blast
  have r: "finalize_paths E W (p # ps) s = (s, evs1 @ evs2)"
    using 1(1) 2(1) by simp
  have "src \<in> set (p # ps) \<and> dst = new_pdf_path_of E W src \<and> src \<noteq> dst
          \<and> file_of E src = file_of E dst"
    if "OsRename src dst \<in> set (evs1 @ evs2)" for src dst
  proof -
    from that have "OsRename src dst \<in> set evs1 \<or> OsRename src dst \<in> set evs2" by simp
    then show ?thesis
    proof
      assume "OsRename src dst \<in> set evs1"
      then show ?thesis using 1(2) by auto
    next
      assume "OsRename src dst \<in> set evs2"
      then show ?thesis using 2(2) by auto
    qed
  qed
  then show ?case using r by blast
qed

lemma finalize_paths_settles:
  assumes L: "\<forall>p \<in> A. \<forall>q \<in> A.
        file_of E q = file_of E (new_pdf_path_of E W p)
        \<longrightarrow> file_of E (new_pdf_path_of E W q) = file_of E q"
    and sub: "set ps \<subseteq> A"
    and run: "finalize_paths E W ps s = (s', evs)"
  shows "(\<forall>q \<in> A. settled E W (disk s) q \<longrightarrow> settled E W (disk s') q)
         \<and> (\<forall>p \<in> set ps. settled E W (disk s') p)"
  using sub run
proof (induction ps arbitrary: s s' evs)
  case Nil
  then show ?case by simp
next
  case (Cons p ps)
  obtain s1 evs1 where f: "finalize_filename E W p s = (s1, evs1)" by (metis surj_pair)
  obtain s2 evs2 where g: "finalize_paths E W ps s1 = (s2, evs2)" by (metis surj_pair)
  have s2: "s2 = s'" using Cons.prems(2) f g by simp
  have pA: "p \<in> A" and psA: "set ps \<subseteq> A" using Cons.prems(1) by auto
  have ih: "(\<forall>q \<in> A. settled E W (disk s1) q \<longrightarrow> settled E W (disk s') q)
         \<and> (\<forall>p \<in> set ps. settled E W (disk s') p)"
    using Cons.IH [OF psA g] s2 by simp
  have keep: "settled E W (disk s1) q" if "q \<in> A" "settled E W (disk s) q" for q
    using finalize_filename_keeps_settled [OF f that(2)] L pA that(1) by blast
  have p1: "settled E W (disk s1) p" using f by (rule finalize_filename_settles)
  have a: "\<forall>q \<in> A. settled E W (disk s) q \<longrightarrow> settled E W (disk s') q"
    using ih keep by blast
  have "settled E W (disk s') p" using ih p1 pA by blast
  then have b: "\<forall>r \<in> set (p # ps). settled E W (disk s') r" using ih by simp
  show ?case using a b by (rule conjI)
qed

lemma finalize_paths_twice:
  assumes L: "\<forall>p \<in> set ps. \<forall>q \<in> set ps.
        file_of E q = file_of E (new_pdf_path_of E W p)
        \<longrightarrow> file_of E (new_pdf_path_of E W q) = file_of E q"
    and run: "finalize_paths E W ps s = (s', evs)"
  shows "\<exists>evs'. finalize_paths E W ps s' = (s', evs')
           \<and> (\<forall>src dst. OsRename src dst \<in> set evs'
                 \<longrightarrow> src \<in> set ps \<and> dst = new_pdf_path_of E W src \<and> src \<noteq> dst
                     \<and> file_of E src = file_of E dst)"
proof -
  have "\<forall>p \<in> set ps. settled E W (disk s') p"
    using finalize_paths_settles [OF L subset_refl run] by (rule conjunct2)
  then show ?thesis by (rule finalize_paths_settled)
qed

subsection \<open>The names of the Windows environment\<close>

lemma nt_basename_no_sep: "\<forall>c \<in> set (nt_basename p). \<not> is_sep c"
  unfolding nt_basename_def set_rev
  by (metis (mono_tags, lifting) set_takeWhileD)

lemma replace_from_chars:
  "set (replace_from s old new) \<subseteq> set s \<union> set new"
proof (induction s old new rule: replace_from.induct)
  case (1 old new)
  then show ?case by simp
next
  case (2 c cs old new)
  have "set (drop (length old) (c # cs)) \<subseteq> set (c # cs)" by (rule set_drop_subset)
  then show ?case using 2 by (auto split: if_splits)
qed

lemma replace_no_sep:
  assumes "\<forall>c \<in> set s. \<not> is_sep c"
  shows "\<forall>c \<in> set (replace s ''%20'' '' ''). \<not> is_sep c"
proof
  fix c assume "c \<in> set (replace s ''%20'' '' '')"
  then have "c \<in> set s \<union> set '' ''"
    using replace_from_chars [of s "''%20''" "'' ''"] by (auto simp: replace_pct20)
  then show "\<not> is_sep c" using assms by (auto simp: is_sep_def bslash_def)
qed

lemma replace_twice:
  "replace (replace s ''%20'' '' '') ''%20'' '' '' = replace s ''%20'' '' ''"
  using replace_removes_all [of s] replace_from_unchanged
  by (simp add: replace_pct20)

lemma name_after_path:
  assumes "\<forall>c \<in> set r. \<not> is_sep c"
  shows "rev (takeWhile (\<lambda>c. \<not> is_sep c)
            (rev (path @ (if path \<noteq> [] \<and> \<not> is_sep (last path) then [bslash] else []) @ r)))
         = r"
proof -
  let ?s = "if path \<noteq> [] \<and> \<not> is_sep (last path) then [bslash] else []"
  have "takeWhile (\<lambda>c. \<not> is_sep c) (rev ?s @ rev path) = []"
  proof (cases path rule: rev_cases)
    case Nil
    then show ?thesis by simp
  next
    case (snoc ys y)
    then show ?thesis by (simp add: is_sep_def)
  qed
  moreover have "takeWhile (\<lambda>c. \<not> is_sep c) (rev r @ (rev ?s @ rev path))
      = rev r @ takeWhile (\<lambda>c. \<not> is_sep c) (rev ?s @ rev path)"
    by (rule takeWhile_append2) (use assms in simp)
  ultimately show ?thesis by simp
qed

lemma nt_basename_join:
  assumes "2 \<le> length dir" and "\<forall>c \<in> set r. \<not> is_sep c"
  shows "nt_basename (nt_join dir r) = r"
proof (cases "dir ! 1 = CHR '':''")
  case True
  let ?path = "drop 2 dir"
  let ?s = "if ?path \<noteq> [] \<and> \<not> is_sep (last ?path) then [bslash] else []"
  have j: "nt_join dir r = take 2 dir @ ?path @ ?s @ r"
    using assms(1) True by (simp add: nt_join_def nt_splitdrive_def)
  have l: "length (take 2 dir) = 2" using assms(1) by simp
  have "(take 2 dir @ ?path @ ?s @ r) ! 1 = dir ! 1"
    using assms(1) by (simp add: nth_append)
  then have "nt_splitdrive (nt_join dir r) = (take 2 dir, ?path @ ?s @ r)"
    unfolding j using True l by (simp add: nt_splitdrive_def)
  then show ?thesis
    unfolding nt_basename_def using name_after_path [OF assms(2), of ?path] by simp
next
  case False
  let ?s = "if dir \<noteq> [] \<and> \<not> is_sep (last dir) then [bslash] else []"
  have j: "nt_join dir r = dir @ ?s @ r"
    using assms(1) False by (simp add: nt_join_def nt_splitdrive_def)
  have "(dir @ ?s @ r) ! 1 = dir ! 1"
    using assms(1) by (simp add: nth_append)
  then have "nt_splitdrive (nt_join dir r) = ([], dir @ ?s @ r)"
    unfolding j using False by (simp add: nt_splitdrive_def)
  then show ?thesis
    unfolding nt_basename_def using name_after_path [OF assms(2), of dir] by simp
qed

lemma nt_basename_normpath: "nt_basename (nt_normpath p) = nt_basename p"
proof -
  let ?f = "\<lambda>c. if c = CHR ''/'' then bslash else c"
  have sep: "is_sep (?f c) = is_sep c" for c by (simp add: is_sep_def)
  have c: "(map ?f p ! 1 = CHR '':'') = (p ! 1 = CHR '':'')" if "2 \<le> length p"
    using that by (simp add: bslash_def)
  have d: "snd (nt_splitdrive (map ?f p)) = map ?f (snd (nt_splitdrive p))"
  proof (cases "2 \<le> length p")
    case True
    then show ?thesis using c [OF True] by (simp add: nt_splitdrive_def drop_map)
  next
    case False
    then show ?thesis by (simp add: nt_splitdrive_def)
  qed
  have t: "takeWhile (\<lambda>c. \<not> is_sep c) (map ?f xs) = takeWhile (\<lambda>c. \<not> is_sep c) xs" for xs
    by (induction xs) (auto simp: is_sep_def)
  show ?thesis
    unfolding nt_basename_def nt_normpath_def d rev_map t ..
qed

lemma windows_names_settle:
  assumes "2 \<le> length (output_dir W)"
    and "file_of (windows c e) q = file_of (windows c e) (new_pdf_path_of (windows c e) W p)"
  shows "file_of (windows c e) (new_pdf_path_of (windows c e) W q) = file_of (windows c e) q"
proof -
  let ?r = "replace (nt_basename p) ''%20'' '' ''"
  have r: "\<forall>c \<in> set ?r. \<not> is_sep c"
    using nt_basename_no_sep by (rule replace_no_sep)
  have q: "nt_normpath q = nt_normpath (nt_join (output_dir W) ?r)"
    using assms(2) by (simp add: windows_def new_pdf_path_of_def)
  have "nt_basename q = nt_basename (nt_normpath q)" by (simp add: nt_basename_normpath)
  also have "\<dots> = nt_basename (nt_join (output_dir W) ?r)"
    unfolding q by (rule nt_basename_normpath)
  also have "\<dots> = ?r" using assms(1) r by (rule nt_basename_join)
  finally have "replace (nt_basename q) ''%20'' '' '' = ?r" by (simp add: replace_twice)
  then show ?thesis using q by (simp add: windows_def new_pdf_path_of_def)
qed

text \<open>
  In the Windows environment, with an output directory of two characters or more, a
  second pass of the finalization leaves the state as the first pass left it, whatever
  was recorded and whatever is on disk; a call of \<^verbatim>\<open>os.rename\<close> it makes renames a file
  onto itself.
\<close>

lemma windows_finalize_twice:
  assumes d: "2 \<le> length (output_dir W)"
    and run: "finalize_filenames (windows c e) W s = (s', evs)"
  shows "\<exists>evs'. finalize_filenames (windows c e) W s' = (s', evs')
           \<and> (\<forall>src dst. OsRename src dst \<in> set evs'
                 \<longrightarrow> nt_normpath src = nt_normpath dst)"
proof -
  let ?E = "windows c e"
  have r: "finalize_paths ?E W (saved_pdf_paths s) s = (s', evs)"
    using run by (simp add: finalize_filenames_def)
  have same: "saved_pdf_paths s' = saved_pdf_paths s"
    using finalize_paths_fields [OF r] by simp
  have L: "\<forall>p \<in> set (saved_pdf_paths s). \<forall>q \<in> set (saved_pdf_paths s).
        file_of ?E q = file_of ?E (new_pdf_path_of ?E W p)
        \<longrightarrow> file_of ?E (new_pdf_path_of ?E W q) = file_of ?E q"
    using windows_names_settle [OF d] by blast
  obtain evs' where 2: "finalize_paths ?E W (saved_pdf_paths s) s' = (s', evs')"
    and 3: "\<forall>src dst. OsRename src dst \<in> set evs'
        \<longrightarrow> src \<in> set (saved_pdf_paths s) \<and> dst = new_pdf_path_of ?E W src \<and> src \<noteq> dst
            \<and> file_of ?E src = file_of ?E dst"
    using finalize_paths_twice [OF L r] by blast
  have f: "file_of ?E = nt_normpath" by (simp add: windows_def)
  have a: "finalize_filenames ?E W s' = (s', evs')"
    using 2 same by (simp add: finalize_filenames_def)
  have b: "\<forall>src dst. OsRename src dst \<in> set evs' \<longrightarrow> nt_normpath src = nt_normpath dst"
    using 3 unfolding f by blast
  show ?thesis using a b by blast
qed
section \<open>The per-file failure lines of a run\<close>

lemma progress_updates_append:
  "progress_updates (xs @ ys) = progress_updates xs @ progress_updates ys"
  by (induction xs rule: progress_updates.induct) simp_all

lemma failure_lines_append:
  "failure_lines (xs @ ys) = failure_lines xs @ failure_lines ys"
  by (simp add: failure_lines_def progress_updates_append)

lemma failure_lines_Nil: "failure_lines [] = []"
  by (simp add: failure_lines_def)

lemma failure_lines_other:
  "\<forall>m. e \<noteq> ProgressUpdate m \<Longrightarrow> failure_lines (e # es) = failure_lines es"
  by (cases e) (simp_all add: failure_lines_def)

lemma failure_lines_update:
  "failure_lines (ProgressUpdate m # es)
     = (if prefix ''Failed to convert '' m then m # failure_lines es else failure_lines es)"
  by (simp add: failure_lines_def)

lemma not_failure_line:
  "\<not> prefix ''Failed to convert '' (msg_attempting a n fn)"
  "\<not> prefix ''Failed to convert '' (msg_converted fn pp)"
  "\<not> prefix ''Failed to convert '' (msg_attempt_error a fn e)"
  "\<not> prefix ''Failed to convert '' msg_cancelled_by_user"
  "\<not> prefix ''Failed to convert '' (msg_renamed o1 n1)"
  "\<not> prefix ''Failed to convert '' (msg_not_found o1)"
  "\<not> prefix ''Failed to convert '' (msg_rename_failed o1 e)"
  by (simp_all add: msg_attempting_def msg_converted_def msg_attempt_error_def
      msg_cancelled_by_user_def msg_renamed_def msg_not_found_def msg_rename_failed_def)

lemma failure_line:
  "prefix ''Failed to convert '' (msg_failed fn n)"
  "msg_failed fn n = ''Failed to convert '' @ fn @ '' after '' @ str_int n @ '' attempts.''"
  by (simp_all add: msg_failed_def)

lemmas failure_lines_simps =
  failure_lines_Nil failure_lines_append failure_lines_other failure_lines_update
  not_failure_line failure_line(1)

lemma try_convert_failure_lines:
  "try_convert E W file fn pp a s = (ok, s', evs) \<Longrightarrow> failure_lines evs = []"
  by (auto simp: try_convert_def Let_def attempt_failed_def failure_lines_simps
      split: attempt_result.splits)

lemma retry_loop_failure_lines:
  "retry_loop E W file fn pp as s = (ok, s', evs) \<Longrightarrow> failure_lines evs = []"
proof (induction as arbitrary: s ok s' evs)
  case Nil
  then show ?case by (simp add: failure_lines_simps)
next
  case (Cons a as)
  obtain c s1 where c: "is_cancelled E s = (c, s1)" by (metis surj_pair)
  obtain ok2 s2 evs2 where t: "try_convert E W file fn pp a s1 = (ok2, s2, evs2)"
    by (metis surj_pair)
  obtain ok3 s3 evs3 where r: "retry_loop E W file fn pp as s2 = (ok3, s3, evs3)"
    by (metis surj_pair)
  have 2: "failure_lines evs2 = []" using t by (rule try_convert_failure_lines)
  have 3: "failure_lines evs3 = []" using r by (rule Cons.IH)
  have "evs = [IsCancelled True] \<or> evs = IsCancelled False # evs2
        \<or> evs = IsCancelled False # evs2 @ evs3"
    using Cons.prems c t r by (auto split: if_splits)
  then show ?case using 2 3 by (auto simp: failure_lines_simps)
qed

lemma reset_permissions_failure_lines: "failure_lines (reset_permissions E file) = []"
  by (simp add: reset_permissions_def failure_lines_simps split: option.splits)

lemma report_failure_failure_lines:
  assumes "report_failure E W fn ok s = (s', evs)"
  shows "failure_lines evs
         = (if \<not> ok \<and> \<not> cancelled s' then [msg_failed fn (retries W)] else [])"
proof -
  obtain c s1 where c: "is_cancelled E s = (c, s1)" by (metis surj_pair)
  have f: "cancelled s1 = c" using is_cancelled_fields [OF c] by simp
  show ?thesis
    using assms c f
    by (auto simp: report_failure_def failure_lines_simps split: if_splits)
qed

lemma count_processed_failure_lines:
  "count_processed E n s = Inr (s', evs) \<Longrightarrow> failure_lines evs = []"
  by (auto simp: count_processed_def Let_def failure_lines_simps
      split: prod.splits if_splits sum.splits)

lemma convert_file_failure_lines:
  assumes "convert_file E W n file s = Inr (s', evs)"
  shows "failure_lines evs = []
         \<or> failure_lines evs = [msg_failed (os_path_basename E file) (retries W)]"
proof -
  obtain ok s1 evs1 s2 evs2 evs3 where p:
    "retry_loop E W file (os_path_basename E file) (pdf_path_of E W file) [1..retries W] s
       = (ok, s1, evs1)"
    "report_failure E W (os_path_basename E file) ok s1 = (s2, evs2)"
    "count_processed E n s2 = Inr (s', evs3)"
    "evs = reset_permissions E file @ evs1 @ evs2 @ evs3"
    using assms by (rule convert_file_parts)
  have "failure_lines evs = failure_lines evs2"
    unfolding p(4) failure_lines_append
    using retry_loop_failure_lines [OF p(1)] count_processed_failure_lines [OF p(3)]
    by (simp add: reset_permissions_failure_lines)
  then show ?thesis using report_failure_failure_lines [OF p(2)] by auto
qed

lemma convert_file_failed_line:
  assumes "\<forall>n. engine E n file \<noteq> Converted" "\<forall>n. \<not> cancel_requested E n" "\<not> cancelled s"
    and "convert_file E W n file s = Inr (s', evs)"
  shows "failure_lines evs = [msg_failed (os_path_basename E file) (retries W)]"
proof -
  obtain ok s1 evs1 s2 evs2 evs3 where p:
    "retry_loop E W file (os_path_basename E file) (pdf_path_of E W file) [1..retries W] s
       = (ok, s1, evs1)"
    "report_failure E W (os_path_basename E file) ok s1 = (s2, evs2)"
    "count_processed E n s2 = Inr (s', evs3)"
    "evs = reset_permissions E file @ evs1 @ evs2 @ evs3"
    using assms(4) by (rule convert_file_parts)
  have ok: "\<not> ok"
    using retry_loop_never_converted [OF assms(1), of W "os_path_basename E file"
        "pdf_path_of E W file" "[1..retries W]" s] p(1) by auto
  have c1: "\<not> cancelled s1"
    using flag_follows_no_request [OF retry_loop_follows [OF p(1)]] assms(2,3) by simp
  have c2: "\<not> cancelled s2"
    using flag_follows_no_request [OF report_failure_follows [OF p(2)]] assms(2) c1 by simp
  have "failure_lines evs = failure_lines evs2"
    unfolding p(4) failure_lines_append
    using retry_loop_failure_lines [OF p(1)] count_processed_failure_lines [OF p(3)]
    by (simp add: reset_permissions_failure_lines)
  then show ?thesis using report_failure_failure_lines [OF p(2)] ok c2 by simp
qed

lemma files_loop_failure_lines:
  "files_loop E W n fs s = Inr (s', evs) \<Longrightarrow>
     \<exists>failed. subseq failed fs
        \<and> failure_lines evs
            = map (\<lambda>f. msg_failed (os_path_basename E f) (retries W)) failed"
proof (induction fs arbitrary: s s' evs)
  case Nil
  then show ?case by (simp add: failure_lines_simps)
next
  case (Cons f fs)
  let ?t = "\<lambda>f. msg_failed (os_path_basename E f) (retries W)"
  obtain c s1 where c: "is_cancelled E s = (c, s1)" by (metis surj_pair)
  show ?case
  proof (cases c)
    case True
    then have "evs = [IsCancelled True, ProgressUpdate msg_cancelled_by_user]"
      using Cons.prems c by simp
    then have "failure_lines evs = map ?t []" by (simp add: failure_lines_simps)
    moreover have "subseq [] (f # fs)" by simp
    ultimately show ?thesis by blast
  next
    case False
    obtain s2 evs2 where cf: "convert_file E W n f s1 = Inr (s2, evs2)"
      using Cons.prems c False by (auto split: sum.splits)
    obtain evs3 where l: "files_loop E W n fs s2 = Inr (s', evs3)"
        and e: "evs = IsCancelled False # evs2 @ evs3"
      using Cons.prems c False cf by (auto split: sum.splits)
    obtain failed where r: "subseq failed fs" "failure_lines evs3 = map ?t failed"
      using Cons.IH [OF l] by blast
    have e': "failure_lines evs = failure_lines evs2 @ failure_lines evs3"
      unfolding e by (simp add: failure_lines_simps)
    from convert_file_failure_lines [OF cf] show ?thesis
    proof
      assume "failure_lines evs2 = []"
      then have "failure_lines evs = map ?t failed" using e' r(2) by simp
      moreover have "subseq failed (f # fs)" using r(1) by (rule list_emb_Cons)
      ultimately show ?thesis by blast
    next
      assume "failure_lines evs2 = [?t f]"
      then have "failure_lines evs = map ?t (f # failed)" using e' r(2) by simp
      moreover have "subseq (f # failed) (f # fs)" using r(1) by simp
      ultimately show ?thesis by blast
    qed
  qed
qed

lemma files_loop_failed_lines:
  assumes "\<forall>n f. engine E n f \<noteq> Converted" "\<forall>n. \<not> cancel_requested E n"
  shows "\<not> cancelled s \<Longrightarrow> files_loop E W n fs s = Inr (s', evs) \<Longrightarrow>
     failure_lines evs = map (\<lambda>f. msg_failed (os_path_basename E f) (retries W)) fs"
proof (induction fs arbitrary: s s' evs)
  case Nil
  then show ?case by (simp add: failure_lines_simps)
next
  case (Cons f fs)
  have c: "is_cancelled E s = (False, s\<lparr>reads := reads s + 1\<rparr>)"
    using Cons.prems(1) assms(2) by (simp add: is_cancelled_eq)
  let ?s1 = "s\<lparr>reads := reads s + 1\<rparr>"
  obtain s2 evs2 where cf: "convert_file E W n f ?s1 = Inr (s2, evs2)"
    using Cons.prems(2) c by (auto split: sum.splits)
  obtain evs3 where l: "files_loop E W n fs s2 = Inr (s', evs3)"
      and e: "evs = IsCancelled False # evs2 @ evs3"
    using Cons.prems(2) c cf by (auto split: sum.splits)
  have c1: "\<not> cancelled ?s1" using Cons.prems(1) by simp
  have 1: "failure_lines evs2 = [msg_failed (os_path_basename E f) (retries W)]"
    using convert_file_failed_line [OF _ assms(2) c1 cf] assms(1) by simp
  have c2: "\<not> cancelled s2"
    using convert_file_never_converted [OF _ assms(2) c1 cf] assms(1) by simp
  have 2: "failure_lines evs3 = map (\<lambda>f. msg_failed (os_path_basename E f) (retries W)) fs"
    using Cons.IH [OF c2 l] .
  show ?case unfolding e using 1 2 by (simp add: failure_lines_simps)
qed

lemma finalize_filename_failure_lines:
  "finalize_filename E W p s = (s', evs) \<Longrightarrow> failure_lines evs = []"
  by (auto simp: finalize_filename_def Let_def failure_lines_simps
      split: if_splits sum.splits)

lemma finalize_paths_failure_lines:
  "finalize_paths E W ps s = (s', evs) \<Longrightarrow> failure_lines evs = []"
proof (induction ps arbitrary: s s' evs)
  case Nil
  then show ?case by (simp add: failure_lines_simps)
next
  case (Cons p ps)
  obtain s1 evs1 where f: "finalize_filename E W p s = (s1, evs1)" by (metis surj_pair)
  obtain s2 evs2 where g: "finalize_paths E W ps s1 = (s2, evs2)" by (metis surj_pair)
  have "evs = evs1 @ evs2" using Cons.prems f g by simp
  then show ?case
    using finalize_filename_failure_lines [OF f] Cons.IH [OF g]
    by (simp add: failure_lines_append)
qed

lemma endswith_iff: "endswith s suf \<longleftrightarrow> (\<exists>stem. s = stem @ suf)"
proof
  assume "endswith s suf"
  then have "s = take (length s - length suf) s @ suf"
    by (metis append_take_drop_id endswith_def)
  then show "\<exists>stem. s = stem @ suf" ..
next
  assume "\<exists>stem. s = stem @ suf"
  then show "endswith s suf"
    by (auto simp: endswith_def)
qed

lemma rsplit1_dot_xls: "rsplit1 (stem @ ''.xls'') CHR ''.'' ! 0 = stem"
  by (simp add: rsplit1_def)

lemma rsplit1_dot_xlsx: "rsplit1 (stem @ ''.xlsx'') CHR ''.'' ! 0 = stem"
  by (simp add: rsplit1_def)

lemma pdf_name_of_xls: "pdf_name_of (stem @ ''.xls'') = stem @ ''.pdf''"
proof -
  have "endswith (stem @ ''.xls'') ''.xls''"
    by (simp add: endswith_def)
  then show ?thesis
    by (simp add: pdf_name_of_def endswith_any_def rsplit1_dot_xls del: append.simps)
qed

lemma pdf_name_of_xlsx: "pdf_name_of (stem @ ''.xlsx'') = stem @ ''.pdf''"
proof -
  have "endswith (stem @ ''.xlsx'') ''.xlsx''"
    by (simp add: endswith_def)
  then show ?thesis
    by (simp add: pdf_name_of_def endswith_any_def rsplit1_dot_xlsx del: append.simps)
qed

lemma pdf_name_of_other:
  assumes "\<forall>stem. file_name \<noteq> stem @ ''.xls'' \<and> file_name \<noteq> stem @ ''.xlsx''"
  shows "pdf_name_of file_name = file_name @ ''.pdf''"
  using assms by (auto simp: pdf_name_of_def endswith_any_def endswith_iff)

text \<open>
  C1. For a file name that ends in \<^verbatim>\<open>.xls\<close> or \<^verbatim>\<open>.xlsx\<close> the derived PDF name is the
  name with exactly that trailing suffix removed and \<^verbatim>\<open>.pdf\<close> appended; for a name with
  neither suffix it is the whole name with \<^verbatim>\<open>.pdf\<close> appended, so a name that already
  ends in \<^verbatim>\<open>.pdf\<close> yields \<^verbatim>\<open>name.pdf.pdf\<close>.
\<close>

theorem derived_pdf_name:
  "(file_name = stem @ ''.xls'' \<or> file_name = stem @ ''.xlsx''
      \<longrightarrow> pdf_name_of file_name = stem @ ''.pdf'')
   \<and> ((\<forall>s. file_name \<noteq> s @ ''.xls'' \<and> file_name \<noteq> s @ ''.xlsx'')
      \<longrightarrow> pdf_name_of file_name = file_name @ ''.pdf'')
   \<and> pdf_name_of (name @ ''.pdf'') = name @ ''.pdf.pdf''"
proof (intro conjI impI)
  assume "file_name = stem @ ''.xls'' \<or> file_name = stem @ ''.xlsx''"
  then show "pdf_name_of file_name = stem @ ''.pdf''"
    using pdf_name_of_xls pdf_name_of_xlsx by blast
next
  assume "\<forall>s. file_name \<noteq> s @ ''.xls'' \<and> file_name \<noteq> s @ ''.xlsx''"
  then show "pdf_name_of file_name = file_name @ ''.pdf''"
    by (rule pdf_name_of_other)
next
  have "\<forall>s. name @ ''.pdf'' \<noteq> s @ ''.xls'' \<and> name @ ''.pdf'' \<noteq> s @ ''.xlsx''"
    by auto
  then show "pdf_name_of (name @ ''.pdf'') = name @ ''.pdf.pdf''"
    using pdf_name_of_other by fastforce
qed

theorem derived_pdf_name_witness:
  "pdf_name_of ''Budget.xls'' = ''Budget.pdf''
   \<and> pdf_name_of ''%20Report.xlsx'' = ''%20Report.pdf''
   \<and> pdf_name_of ''notes.txt'' = ''notes.txt.pdf''
   \<and> pdf_name_of ''data.csv.pdf'' = ''data.csv.pdf.pdf''"
proof -
  have a: "pdf_name_of ''Budget.xls'' = ''Budget.pdf''"
    using derived_pdf_name [of "''Budget.xls''" "''Budget''"] by simp
  have b: "pdf_name_of ''%20Report.xlsx'' = ''%20Report.pdf''"
    using derived_pdf_name [of "''%20Report.xlsx''" "''%20Report''"] by simp
  have "\<forall>s. ''notes.txt'' \<noteq> s @ ''.xls'' \<and> ''notes.txt'' \<noteq> s @ ''.xlsx''"
    by (auto simp: append_eq_Cons_conv)
  then have c: "pdf_name_of ''notes.txt'' = ''notes.txt.pdf''"
    using derived_pdf_name [of "''notes.txt''" "[]"] by simp
  have d: "pdf_name_of ''data.csv.pdf'' = ''data.csv.pdf.pdf''"
    using derived_pdf_name [of "[]" "[]" "''data.csv''"] by simp
  show ?thesis using a b c d by simp
qed
text \<open>
  C2, as the code has it. One step of \<^verbatim>\<open>finalize_filenames\<close>, for a recorded path: the new
  name is the base name with every \<^verbatim>\<open>%20\<close> replaced by one space and nothing else changed
  (the base name is its pieces joined by \<^verbatim>\<open>%20\<close>, the new name the same pieces joined by a
  space, and no \<^verbatim>\<open>%20\<close> is left); a base name without \<^verbatim>\<open>%20\<close> is its own new name. The
  file is renamed to the new name in the output directory when the recorded path differs
  from the new path, the file exists, the rename is not refused, and no other file has the
  new name. When the file does not exist the step logs that and changes nothing; when
  the rename is refused or another file has the new name the step logs the failure and the
  file keeps its name. When the recorded path is the new path nothing is done, and when
  both name one file the state is unchanged.
\<close>

theorem finalization_step:
  "(let original = os_path_basename E pdf_path;
        new_name = replace original ''%20'' '' '';
        new_path = os_path_join E (output_dir W) new_name;
        pieces = split_from original ''%20''
    in original = str_join ''%20'' pieces
       \<and> new_name = str_join '' '' pieces
       \<and> list_all (\<lambda>u. \<not> contains u ''%20'') pieces
       \<and> \<not> contains new_name ''%20''
       \<and> (\<not> contains original ''%20'' \<longrightarrow> new_name = original)
       \<and> (pdf_path \<noteq> new_path \<and> file_of E pdf_path \<in> disk s
            \<and> \<not> rename_denied E pdf_path new_path
            \<and> (file_of E new_path \<notin> disk s \<or> file_of E new_path = file_of E pdf_path)
          \<longrightarrow> finalize_filename E W pdf_path s
                = (s\<lparr>disk := insert (file_of E new_path) (disk s - {file_of E pdf_path})\<rparr>,
                   [OsRename pdf_path new_path,
                    ProgressUpdate (''Renamed '' @ original @ '' to '' @ new_name)]))
       \<and> (pdf_path \<noteq> new_path \<and> file_of E pdf_path \<notin> disk s
          \<longrightarrow> finalize_filename E W pdf_path s
                = (s, [ProgressUpdate (''File not found for renaming: '' @ original)]))
       \<and> (pdf_path \<noteq> new_path \<and> file_of E pdf_path \<in> disk s
            \<and> rename_denied E pdf_path new_path
          \<longrightarrow> finalize_filename E W pdf_path s
                = (s, [ProgressUpdate
                         (''Failed to rename '' @ original @ '': ''
                            @ strerror E PermissionError pdf_path new_path)]))
       \<and> (pdf_path \<noteq> new_path \<and> file_of E pdf_path \<in> disk s
            \<and> \<not> rename_denied E pdf_path new_path
            \<and> file_of E new_path \<in> disk s \<and> file_of E new_path \<noteq> file_of E pdf_path
          \<longrightarrow> finalize_filename E W pdf_path s
                = (s, [ProgressUpdate
                         (''Failed to rename '' @ original @ '': ''
                            @ strerror E FileExistsError pdf_path new_path)]))
       \<and> (pdf_path = new_path \<longrightarrow> finalize_filename E W pdf_path s = (s, []))
       \<and> (file_of E new_path = file_of E pdf_path
          \<longrightarrow> fst (finalize_filename E W pdf_path s) = s))"
proof -
  let ?o = "os_path_basename E pdf_path"
  let ?n = "replace ?o ''%20'' '' ''"
  let ?p = "os_path_join E (output_dir W) ?n"
  note n = new_name_spec [of ?o]
  have 1: "?o = str_join ''%20'' (split_from ?o ''%20'')"
    and 2: "?n = str_join '' '' (split_from ?o ''%20'')"
    and 3: "list_all (\<lambda>u. \<not> contains u ''%20'') (split_from ?o ''%20'')"
    and 4: "\<not> contains ?n ''%20''"
    and 5: "\<not> contains ?o ''%20'' \<longrightarrow> ?n = ?o"
    using n unfolding list_all_iff by blast+
  have same: "s\<lparr>disk := disk s\<rparr> = s" by simp
  have 6: "finalize_filename E W pdf_path s
        = (s\<lparr>disk := insert (file_of E ?p) (disk s - {file_of E pdf_path})\<rparr>,
           [OsRename pdf_path ?p, ProgressUpdate (''Renamed '' @ ?o @ '' to '' @ ?n)])"
    if "pdf_path \<noteq> ?p" "file_of E pdf_path \<in> disk s"
       "file_of E ?p \<notin> disk s \<or> file_of E ?p = file_of E pdf_path"
       "\<not> rename_denied E pdf_path ?p"
  proof (cases "file_of E ?p = file_of E pdf_path")
    case True
    then have "insert (file_of E ?p) (disk s - {file_of E pdf_path}) = disk s"
      using that(2) by auto
    then show ?thesis using that True
      by (simp add: finalize_filename_def Let_def os_path_exists_def os_rename_def msg_renamed_def)
  next
    case False
    then show ?thesis using that
      by (simp add: finalize_filename_def Let_def os_path_exists_def os_rename_def msg_renamed_def)
  qed
  have 7: "finalize_filename E W pdf_path s
        = (s, [ProgressUpdate (''File not found for renaming: '' @ ?o)])"
    if "pdf_path \<noteq> ?p" "file_of E pdf_path \<notin> disk s"
    using that by (simp add: finalize_filename_def Let_def os_path_exists_def msg_not_found_def)
  have 8: "finalize_filename E W pdf_path s
        = (s, [ProgressUpdate (''Failed to rename '' @ ?o @ '': ''
                                 @ strerror E FileExistsError pdf_path ?p)])"
    if "pdf_path \<noteq> ?p" "file_of E pdf_path \<in> disk s" "file_of E ?p \<in> disk s"
       "file_of E ?p \<noteq> file_of E pdf_path" "\<not> rename_denied E pdf_path ?p"
    using that
    by (simp add: finalize_filename_def Let_def os_path_exists_def os_rename_def msg_rename_failed_def)
  have 11: "finalize_filename E W pdf_path s
        = (s, [ProgressUpdate (''Failed to rename '' @ ?o @ '': ''
                                 @ strerror E PermissionError pdf_path ?p)])"
    if "pdf_path \<noteq> ?p" "file_of E pdf_path \<in> disk s" "rename_denied E pdf_path ?p"
    using that
    by (simp add: finalize_filename_def Let_def os_path_exists_def os_rename_def msg_rename_failed_def)
  have 9: "finalize_filename E W pdf_path s = (s, [])" if "pdf_path = ?p"
    using that by (simp add: finalize_filename_def Let_def)
  have 10: "fst (finalize_filename E W pdf_path s) = s" if "file_of E ?p = file_of E pdf_path"
    using that
    by (simp add: finalize_filename_def Let_def os_path_exists_def os_rename_def)
  show ?thesis
    unfolding Let_def
    using 1 2 3 4 5 6 7 8 9 10 11 by blast
qed


theorem collision_keeps_percent20:
  "convert_files (windows never always_converts) colliding_names (init_state {})
     = Inr (\<lparr>cancelled = False,
             saved_pdf_paths = [on_drive CHR ''C'' [''out'', ''a%20b.pdf''],
                                on_drive CHR ''C'' [''out'', ''a b.pdf'']],
             processed_files = 2,
             disk = {on_drive CHR ''C'' [''out'', ''a%20b.pdf''],
                     on_drive CHR ''C'' [''out'', ''a b.pdf'']},
             reads = 7, attempts = 2\<rparr>,
            [CoInitialize, Dispatch ''Excel.Application'', SetVisible False,
             IsCancelled False,
             Chmod (on_drive CHR ''C'' [''in'', ''a%20b.xlsx'']),
             IsCancelled False,
             ProgressUpdate ''Attempting conversion (1/3) for: a%20b.xlsx'',
             WorkbooksOpen (on_drive CHR ''C'' [''in'', ''a%20b.xlsx'']),
             ExportAsFixedFormat (on_drive CHR ''C'' [''out'', ''a%20b.pdf'']),
             WorkbookClose,
             ProgressUpdate
               (''Successfully converted: a%20b.xlsx to PDF at ''
                  @ on_drive CHR ''C'' [''out'', ''a%20b.pdf'']),
             IsCancelled False,
             Progress 50,
             IsCancelled False,
             Chmod (on_drive CHR ''C'' [''in'', ''a b.xlsx'']),
             IsCancelled False,
             ProgressUpdate ''Attempting conversion (1/3) for: a b.xlsx'',
             WorkbooksOpen (on_drive CHR ''C'' [''in'', ''a b.xlsx'']),
             ExportAsFixedFormat (on_drive CHR ''C'' [''out'', ''a b.pdf'']),
             WorkbookClose,
             ProgressUpdate
               (''Successfully converted: a b.xlsx to PDF at ''
                  @ on_drive CHR ''C'' [''out'', ''a b.pdf'']),
             IsCancelled False,
             Progress 100,
             Quit, CoUninitialize,
             ProgressUpdate
               (''Failed to rename a%20b.pdf: ''
                  @ win_strerror FileExistsError
                      (on_drive CHR ''C'' [''out'', ''a%20b.pdf''])
                      (on_drive CHR ''C'' [''out'', ''a b.pdf''])),
             IsCancelled False,
             ConversionComplete ''All files processed.''])"
  by code_simp

theorem finalization_step_witness:
  "replace ''%20Report.pdf'' ''%20'' '' '' = '' Report.pdf''
   \<and> finalize_filename (windows never always_converts) two_files
        (on_drive CHR ''C'' [''out'', ''%20Report.pdf''])
        (recorded [on_drive CHR ''C'' [''out'', ''%20Report.pdf'']]
                  {on_drive CHR ''C'' [''out'', ''%20Report.pdf'']})
      = (recorded [on_drive CHR ''C'' [''out'', ''%20Report.pdf'']]
                  {on_drive CHR ''C'' [''out'', '' Report.pdf'']},
         [OsRename (on_drive CHR ''C'' [''out'', ''%20Report.pdf''])
                   (on_drive CHR ''C'' [''out'', '' Report.pdf'']),
          ProgressUpdate ''Renamed %20Report.pdf to  Report.pdf''])
   \<and> finalize_filename (windows never always_converts) two_files
        (on_drive CHR ''C'' [''out'', ''%20Report.pdf''])
        (recorded [on_drive CHR ''C'' [''out'', ''%20Report.pdf'']] {})
      = (recorded [on_drive CHR ''C'' [''out'', ''%20Report.pdf'']] {},
         [ProgressUpdate ''File not found for renaming: %20Report.pdf''])
   \<and> finalize_filename files_in_use two_files
        (on_drive CHR ''C'' [''out'', ''%20Report.pdf''])
        (recorded [on_drive CHR ''C'' [''out'', ''%20Report.pdf'']]
                  {on_drive CHR ''C'' [''out'', ''%20Report.pdf'']})
      = (recorded [on_drive CHR ''C'' [''out'', ''%20Report.pdf'']]
                  {on_drive CHR ''C'' [''out'', ''%20Report.pdf'']},
         [ProgressUpdate
            (''Failed to rename %20Report.pdf: ''
               @ win_strerror PermissionError
                   (on_drive CHR ''C'' [''out'', ''%20Report.pdf''])
                   (on_drive CHR ''C'' [''out'', '' Report.pdf'']))])"
proof -
  let ?E = "windows never always_converts"
  let ?p = "on_drive CHR ''C'' [''out'', ''%20Report.pdf'']"
  let ?q = "on_drive CHR ''C'' [''out'', '' Report.pdf'']"
  have d: "disk (recorded [?p] {?p}) = {?p}" "disk (recorded [?p] {}) = {}"
    by (simp_all add: recorded_def init_state_def)
  have u: "(recorded [?p] {?p})\<lparr>disk := {?q}\<rparr> = recorded [?p] {?q}"
    by (simp add: recorded_def init_state_def)
  have a: "finalize_filename ?E two_files ?p (recorded [?p] {?p})
      = (recorded [?p] {?q},
         [OsRename ?p ?q, ProgressUpdate ''Renamed %20Report.pdf to  Report.pdf''])"
    using finalization_step [of ?E ?p two_files "recorded [?p] {?p}"] u report_names(6)
    unfolding Let_def report_names d by simp
  have b: "finalize_filename ?E two_files ?p (recorded [?p] {})
      = (recorded [?p] {}, [ProgressUpdate ''File not found for renaming: %20Report.pdf''])"
    using finalization_step [of ?E ?p two_files "recorded [?p] {}"] report_names(6)
    unfolding Let_def report_names d by simp
  have c: "finalize_filename files_in_use two_files ?p (recorded [?p] {?p})
      = (recorded [?p] {?p},
         [ProgressUpdate
            (''Failed to rename %20Report.pdf: '' @ win_strerror PermissionError ?p ?q)])"
    using finalization_step [of files_in_use ?p two_files "recorded [?p] {?p}"] report_names(6)
    unfolding Let_def in_use_names report_names(2) d by simp
  show ?thesis using a b c report_names(2) by simp
qed

text \<open>
  The job of two files with one attempt each, in which \<^verbatim>\<open>%20Report.xlsx\<close> converts and
  \<^verbatim>\<open>Budget.xls\<close> fails: the PDF is written as \<^verbatim>\<open>%20Report.pdf\<close> and renamed by the
  finalization, \<^verbatim>\<open>Budget.xls\<close> gets its failure line after one attempt, the last
  percentage is 100 and the run ends with \<^verbatim>\<open>All files processed.\<close>.
\<close>

lemma report_converts_budget_fails:
  "convert_files (windows never budget_fails) two_files (init_state {})
     = Inr (\<lparr>cancelled = False,
             saved_pdf_paths = [on_drive CHR ''C'' [''out'', ''%20Report.pdf'']],
             processed_files = 2,
             disk = {on_drive CHR ''C'' [''out'', '' Report.pdf'']},
             reads = 8, attempts = 2\<rparr>,
            [CoInitialize, Dispatch ''Excel.Application'', SetVisible False,
             IsCancelled False,
             Chmod (on_drive CHR ''C'' [''in'', ''%20Report.xlsx'']),
             IsCancelled False,
             ProgressUpdate ''Attempting conversion (1/1) for: %20Report.xlsx'',
             WorkbooksOpen (on_drive CHR ''C'' [''in'', ''%20Report.xlsx'']),
             ExportAsFixedFormat (on_drive CHR ''C'' [''out'', ''%20Report.pdf'']),
             WorkbookClose,
             ProgressUpdate
               (''Successfully converted: %20Report.xlsx to PDF at ''
                  @ on_drive CHR ''C'' [''out'', ''%20Report.pdf'']),
             IsCancelled False,
             Progress 50,
             IsCancelled False,
             Chmod (on_drive CHR ''C'' [''in'', ''Budget.xls'']),
             IsCancelled False,
             ProgressUpdate ''Attempting conversion (1/1) for: Budget.xls'',
             WorkbooksOpen (on_drive CHR ''C'' [''in'', ''Budget.xls'']),
             ExportAsFixedFormat (on_drive CHR ''C'' [''out'', ''Budget.pdf'']),
             LoggingError ''Attempt 1: Failed to convert Budget.xls - Export failed'',
             ProgressUpdate ''Attempt 1: Error converting Budget.xls - Export failed'',
             Sleep 1,
             IsCancelled False,
             ProgressUpdate ''Failed to convert Budget.xls after 1 attempts.'',
             IsCancelled False,
             Progress 100,
             Quit, CoUninitialize,
             OsRename (on_drive CHR ''C'' [''out'', ''%20Report.pdf''])
                      (on_drive CHR ''C'' [''out'', '' Report.pdf'']),
             ProgressUpdate ''Renamed %20Report.pdf to  Report.pdf'',
             IsCancelled False,
             ConversionComplete ''All files processed.''])"
  by code_simp

text \<open>
  With the output directory spelled \<^verbatim>\<open>C:/out\<close> the recorded path is the normalized
  \<^verbatim>\<open>C:\out\a.pdf\<close> and the new path the joined \<^verbatim>\<open>C:/out\a.pdf\<close>: the comparison of line 106
  finds them different although the name has no \<^verbatim>\<open>%20\<close>, \<^verbatim>\<open>os.rename\<close> is called on the
  file onto itself, and the rename is logged. The file stays where it is.
\<close>

lemma slash_dir_renames_onto_itself:
  "convert_files (windows never always_converts) slash_dir (init_state {})
     = Inr (\<lparr>cancelled = False,
             saved_pdf_paths = [on_drive CHR ''C'' [''out'', ''a.pdf'']],
             processed_files = 1,
             disk = {on_drive CHR ''C'' [''out'', ''a.pdf'']},
             reads = 4, attempts = 1\<rparr>,
            [CoInitialize, Dispatch ''Excel.Application'', SetVisible False,
             IsCancelled False,
             Chmod (on_drive CHR ''C'' [''in'', ''a.xlsx'']),
             IsCancelled False,
             ProgressUpdate ''Attempting conversion (1/3) for: a.xlsx'',
             WorkbooksOpen (on_drive CHR ''C'' [''in'', ''a.xlsx'']),
             ExportAsFixedFormat (on_drive CHR ''C'' [''out'', ''a.pdf'']),
             WorkbookClose,
             ProgressUpdate
               (''Successfully converted: a.xlsx to PDF at ''
                  @ on_drive CHR ''C'' [''out'', ''a.pdf'']),
             IsCancelled False,
             Progress 100,
             Quit, CoUninitialize,
             OsRename (on_drive CHR ''C'' [''out'', ''a.pdf''])
                      (''C:/out'' @ [bslash] @ ''a.pdf''),
             ProgressUpdate ''Renamed a.pdf to a.pdf'',
             IsCancelled False,
             ConversionComplete ''All files processed.''])"
  by code_simp

text \<open>
  C3, as the code has it. The emitted percentages never decrease, and after the handler
  of the terminal event the progress bar stands at 100, whatever failed; the bar never
  moves back on the way. The value 100 is not only forced by that handler: the worker
  computes and emits 100 itself when the last file is counted as processed, before
  \<open>Quit\<close>, finalization and the terminal event, and (for fewer than \<open>2^53\<close> files) in no
  other case.
\<close>

theorem progress_never_decreases:
  "\<exists>s' pre m.
     convert_files E W (init_state d) = Inr (s', pre @ [ConversionComplete m])
     \<and> sorted (progress_values pre)
     \<and> sorted (bar_history (started w) (pre @ [ConversionComplete m]))
     \<and> last (bar_history (started w) (pre @ [ConversionComplete m])) = 100
     \<and> length (progress_values pre) = processed_files s'
     \<and> (length (files W) \<le> 2 ^ 53 \<longrightarrow>
          (100 \<in> set (progress_values pre)
             \<longleftrightarrow> files W \<noteq> [] \<and> processed_files s' = length (files W)))"
proof -
  obtain s1 body s2 fin c s3 where p:
    "files_loop E W (length (files W)) (files W) (init_state d) = Inr (s1, body)"
    "finalize_filenames E W s1 = (s2, fin)"
    "is_cancelled E s2 = (c, s3)"
    "convert_files E W (init_state d) =
       Inr (s3, [CoInitialize, Dispatch ''Excel.Application'', SetVisible False]
                 @ body @ [Quit, CoUninitialize] @ fin
                 @ [IsCancelled c, ConversionComplete (terminal_message c)])"
    by (rule convert_files_parts)
  let ?n = "length (files W)"
  let ?pre = "[CoInitialize, Dispatch ''Excel.Application'', SetVisible False]
                 @ body @ [Quit, CoUninitialize] @ fin @ [IsCancelled c]"
  have b: "list_all loop_event body" using p(1) by (rule files_loop_events)
  have f: "list_all finalize_event fin"
    using p(2) unfolding finalize_filenames_def by (rule finalize_paths_events)
  have pf: "progress_values fin = []"
    using f by (induction fin rule: progress_values.induct) auto
  have pv: "progress_values ?pre = progress_values body" using pf by simp
  have none: "\<forall>m. ConversionComplete m \<notin> set ?pre"
    using b f by (auto simp: list_all_iff)
  have pr: "processed_files s1 \<le> ?n"
      "list_all2 (\<lambda>k v. progress_percent k ?n = Inr v)
         [1 ..< processed_files s1 + 1] (progress_values body)"
    using files_loop_progress [OF p(1)] by (simp_all add: init_state_def)
  have p3: "processed_files s3 = processed_files s1"
    using finalize_paths_fields [OF p(2) [unfolded finalize_filenames_def]]
      is_cancelled_fields [OF p(3)] by simp
  have "length [1 ..< processed_files s1 + 1] = length (progress_values body)"
    using pr(2) by (rule list_all2_lengthD)
  then have len: "length (progress_values body) = processed_files s1"
    by (simp only: length_upt)
  have facts: "sorted (progress_values body)
      \<and> (\<forall>v \<in> set (progress_values body). 0 \<le> v \<and> v \<le> 100)
      \<and> (?n \<le> 2 ^ 53 \<longrightarrow>
            (100 \<in> set (progress_values body) \<longleftrightarrow> files W \<noteq> [] \<and> processed_files s1 = ?n))"
  proof (cases "files W = []")
    case True
    then have "processed_files s1 = 0" using pr(1) by simp
    then have "progress_values body = []" using len by simp
    then show ?thesis using True by simp
  next
    case False
    then have n: "0 < ?n" by simp
    have ks: "\<forall>k \<in> set [1 ..< processed_files s1 + 1]. k \<le> ?n" using pr(1) by auto
    have 1: "sorted (progress_values body)"
      by (rule percentages_sorted [OF n pr(2) sorted_upt])
    have 2: "\<forall>v \<in> set (progress_values body). 0 \<le> v \<and> v \<le> 100"
      using percentages_range [OF n pr(2) ks] .
    have n1: "Suc 0 \<le> ?n" using False by (cases "files W") simp_all
    have "(1 \<le> ?n \<and> ?n < processed_files s1 + 1) \<longleftrightarrow> processed_files s1 = ?n"
      using pr(1) n1 by linarith
    then have mem: "?n \<in> set [1 ..< processed_files s1 + 1] \<longleftrightarrow> processed_files s1 = ?n"
      by (simp only: set_upt atLeastLessThan_iff)
    have 3: "100 \<in> set (progress_values body) \<longleftrightarrow> processed_files s1 = ?n"
      if "?n \<le> 2 ^ 53"
      using percentages_full [OF n that pr(2) ks] mem by simp
    show ?thesis using 1 2 3 False by blast
  qed
  have win: "sorted (bar_history (started w) (?pre @ [ConversionComplete (terminal_message c)]))
      \<and> last (bar_history (started w) (?pre @ [ConversionComplete (terminal_message c)])) = 100"
  proof (rule run_window)
    show "\<forall>m. ConversionComplete m \<notin> set ?pre" by (rule none)
    show "sorted (progress_values ?pre)" unfolding pv using facts by blast
    show "\<forall>v \<in> set (progress_values ?pre). 0 \<le> v \<and> v \<le> 100"
      unfolding pv using facts by blast
  qed
  have run: "convert_files E W (init_state d)
      = Inr (s3, ?pre @ [ConversionComplete (terminal_message c)])"
    using p(4) by simp
  show ?thesis
    using run win facts len p3 unfolding pv [symmetric] by (metis (no_types, lifting))
qed

theorem progress_100_before_terminal_event:
  "convert_files (windows never always_converts) one_file (init_state {})
     = Inr (\<lparr>cancelled = False,
             saved_pdf_paths = [on_drive CHR ''C'' [''out'', ''a.pdf'']],
             processed_files = 1,
             disk = {on_drive CHR ''C'' [''out'', ''a.pdf'']},
             reads = 4, attempts = 1\<rparr>,
            [CoInitialize, Dispatch ''Excel.Application'', SetVisible False,
             IsCancelled False,
             Chmod (on_drive CHR ''C'' [''in'', ''a.xlsx'']),
             IsCancelled False,
             ProgressUpdate ''Attempting conversion (1/3) for: a.xlsx'',
             WorkbooksOpen (on_drive CHR ''C'' [''in'', ''a.xlsx'']),
             ExportAsFixedFormat (on_drive CHR ''C'' [''out'', ''a.pdf'']),
             WorkbookClose,
             ProgressUpdate
               (''Successfully converted: a.xlsx to PDF at ''
                  @ on_drive CHR ''C'' [''out'', ''a.pdf'']),
             IsCancelled False,
             Progress 100,
             Quit, CoUninitialize,
             IsCancelled False,
             ConversionComplete ''All files processed.''])
   \<and> progress_percent 1 1 = Inr 100"
  by code_simp

theorem progress_never_decreases_witness:
  "length (files two_files) \<le> 2 ^ 53
   \<and> (\<exists>s' pre m.
         convert_files (windows never budget_fails) two_files (init_state {})
           = Inr (s', pre @ [ConversionComplete m])
         \<and> sorted (progress_values pre)
         \<and> sorted (bar_history (started blank_window) (pre @ [ConversionComplete m]))
         \<and> last (bar_history (started blank_window) (pre @ [ConversionComplete m])) = 100
         \<and> length (progress_values pre) = processed_files s'
         \<and> (100 \<in> set (progress_values pre) \<longleftrightarrow> processed_files s' = 2))"
proof -
  have h: "length (files two_files) \<le> 2 ^ 53"
    by (simp add: two_files_def)
  have f: "files two_files \<noteq> []" "length (files two_files) = 2"
    by (simp_all add: two_files_def)
  show ?thesis
    using progress_never_decreases [of "windows never budget_fails" two_files "{}" blank_window]
      h f by auto
qed

text \<open>
  C4. Every run emits exactly one terminal event, as its last event: the cancellation
  message when the flag is set at the read of line 91, and \<^verbatim>\<open>All files processed.\<close>
  otherwise. There is no status for a failed job. The lines of the log that begin with
  \<^verbatim>\<open>Failed to convert\<close> are, in the order of the files, one line
  \<^verbatim>\<open>Failed to convert <name> after <retries> attempts.\<close> for each file of a sublist of the
  job's files. When no attempt on any file ever succeeds and no cancellation comes in,
  that sublist is the whole list, one line for each file of the job, nothing is recorded
  as saved, and the terminal event is still \<^verbatim>\<open>All files processed.\<close>.
\<close>

theorem one_terminal_event:
  "\<exists>s' pre failed.
     convert_files E W (init_state d)
       = Inr (s', pre @ [ConversionComplete
                           (if cancelled s' then ''Conversion cancelled.''
                            else ''All files processed.'')])
     \<and> (\<forall>m. ConversionComplete m \<notin> set pre)
     \<and> subseq failed (files W)
     \<and> failure_lines pre
         = map (\<lambda>f. ''Failed to convert '' @ os_path_basename E f @ '' after ''
                       @ str_int (retries W) @ '' attempts.'') failed
     \<and> ((\<forall>n f. engine E n f \<noteq> Converted) \<and> (\<forall>n. \<not> cancel_requested E n)
          \<longrightarrow> \<not> cancelled s' \<and> saved_pdf_paths s' = [] \<and> failed = files W)"
proof -
  let ?t = "\<lambda>f. ''Failed to convert '' @ os_path_basename E f @ '' after ''
                       @ str_int (retries W) @ '' attempts.''"
  obtain s1 body s2 fin c s3 where p:
    "files_loop E W (length (files W)) (files W) (init_state d) = Inr (s1, body)"
    "finalize_filenames E W s1 = (s2, fin)"
    "is_cancelled E s2 = (c, s3)"
    "convert_files E W (init_state d) =
       Inr (s3, [CoInitialize, Dispatch ''Excel.Application'', SetVisible False]
                 @ body @ [Quit, CoUninitialize] @ fin
                 @ [IsCancelled c, ConversionComplete (terminal_message c)])"
    by (rule convert_files_parts)
  let ?pre = "[CoInitialize, Dispatch ''Excel.Application'', SetVisible False]
                 @ body @ [Quit, CoUninitialize] @ fin @ [IsCancelled c]"
  have b: "list_all loop_event body" using p(1) by (rule files_loop_events)
  have f: "list_all finalize_event fin"
    using p(2) unfolding finalize_filenames_def by (rule finalize_paths_events)
  have c: "cancelled s3 = c" using is_cancelled_fields [OF p(3)] by simp
  have run: "convert_files E W (init_state d)
       = Inr (s3, ?pre @ [ConversionComplete
                           (if cancelled s3 then ''Conversion cancelled.''
                            else ''All files processed.'')])"
    using p(4) c by (simp add: terminal_message_def msg_cancelled_def msg_all_processed_def)
  have none: "\<forall>m. ConversionComplete m \<notin> set ?pre"
    using b f by (auto simp: list_all_iff)
  have t: "msg_failed (os_path_basename E f) (retries W) = ?t f" for f
    by (simp add: msg_failed_def)
  have fl: "failure_lines fin = []"
    using p(2) unfolding finalize_filenames_def by (rule finalize_paths_failure_lines)
  have pre: "failure_lines ?pre = failure_lines body"
    by (simp add: failure_lines_simps fl)
  show ?thesis
  proof (cases "(\<forall>n f. engine E n f \<noteq> Converted) \<and> (\<forall>n. \<not> cancel_requested E n)")
    case True
    then have a: "\<forall>n f. engine E n f \<noteq> Converted" "\<forall>n. \<not> cancel_requested E n"
      by blast+
    have i: "\<not> cancelled (init_state d)" by (simp add: init_state_def)
    have 1: "saved_pdf_paths s1 = [] \<and> \<not> cancelled s1"
      using files_loop_never_converted [OF a i p(1)] by (simp add: init_state_def)
    have 2: "saved_pdf_paths s2 = [] \<and> \<not> cancelled s2"
      using finalize_paths_fields [OF p(2) [unfolded finalize_filenames_def]] 1 by simp
    have 3: "saved_pdf_paths s3 = [] \<and> \<not> cancelled s3"
      using is_cancelled_fields [OF p(3)] 2 a(2) by simp
    have 4: "failure_lines ?pre = map ?t (files W)"
      unfolding pre using files_loop_failed_lines [OF a i p(1)] by (simp add: t)
    have 5: "subseq (files W) (files W)" by simp
    show ?thesis using run none 3 4 5 by blast
  next
    case False
    obtain failed where r: "subseq failed (files W)"
      "failure_lines body = map (\<lambda>f. msg_failed (os_path_basename E f) (retries W)) failed"
      using files_loop_failure_lines [OF p(1)] by blast
    have 4: "failure_lines ?pre = map ?t failed"
      unfolding pre using r(2) by (simp add: t)
    show ?thesis using run none r(1) 4 False by blast
  qed
qed

theorem one_terminal_event_witness:
  "(\<forall>n f. engine (windows never never_converts) n f \<noteq> Converted)
   \<and> (\<forall>n. \<not> cancel_requested (windows never never_converts) n)
   \<and> (\<exists>s' pre.
         convert_files (windows never never_converts) two_files (init_state {})
           = Inr (s', pre @ [ConversionComplete ''All files processed.''])
         \<and> failure_lines pre
             = [''Failed to convert %20Report.xlsx after 1 attempts.'',
                ''Failed to convert Budget.xls after 1 attempts.''])"
proof -
  let ?E = "windows never never_converts"
  have h: "(\<forall>n f. engine ?E n f \<noteq> Converted) \<and> (\<forall>n. \<not> cancel_requested ?E n)"
    by (simp add: windows_def never_def never_converts_def)
  have t: "map (\<lambda>f. ''Failed to convert '' @ os_path_basename ?E f @ '' after ''
                       @ str_int (retries two_files) @ '' attempts.'') (files two_files)
      = [''Failed to convert %20Report.xlsx after 1 attempts.'',
         ''Failed to convert Budget.xls after 1 attempts.'']"
    by code_simp
  obtain s' pre failed where r:
    "convert_files ?E two_files (init_state {})
       = Inr (s', pre @ [ConversionComplete
                           (if cancelled s' then ''Conversion cancelled.''
                            else ''All files processed.'')])"
    "failure_lines pre
       = map (\<lambda>f. ''Failed to convert '' @ os_path_basename ?E f @ '' after ''
                       @ str_int (retries two_files) @ '' attempts.'') failed"
    "\<not> cancelled s'" "failed = files two_files"
    using one_terminal_event [of ?E two_files "{}"] h by blast
  have "failure_lines pre
      = [''Failed to convert %20Report.xlsx after 1 attempts.'',
         ''Failed to convert Budget.xls after 1 attempts.'']"
    using r(2) unfolding r(4) t .
  then show ?thesis using h r(1,3) by auto
qed

text \<open>
  C5. Finalization is idempotent on the disk. Take any recorded paths such that a recorded
  path naming the file of another one's new path is its own new path (so it is for all
  paths in the Windows environment with an output directory of two characters or more,
  by \<open>windows_names_settle\<close>). Then a second pass of
  \<^verbatim>\<open>finalize_filenames\<close>, run on the state the first pass left, leaves that state as it
  is: no file is moved. A call of \<^verbatim>\<open>os.rename\<close> the second pass still makes renames a file
  onto itself, and when every recorded path that names the file of its new path is
  spelled as that new path, the second pass makes no call at all. Whether \<^verbatim>\<open>os.rename\<close>
  raises depends on the files present and on the two paths, not on the moment: a rename
  refused in the first pass is refused in the second.
\<close>

theorem finalization_idempotent:
  assumes "\<forall>p \<in> set (saved_pdf_paths s). \<forall>q \<in> set (saved_pdf_paths s).
        file_of E q = file_of E (new_pdf_path_of E W p)
        \<longrightarrow> file_of E (new_pdf_path_of E W q) = file_of E q"
    and "finalize_filenames E W s = (s', evs)"
  shows "\<exists>evs'. finalize_filenames E W s' = (s', evs')
           \<and> (\<forall>src dst. OsRename src dst \<in> set evs' \<longrightarrow> file_of E src = file_of E dst)
           \<and> ((\<forall>p \<in> set (saved_pdf_paths s).
                  file_of E (new_pdf_path_of E W p) = file_of E p
                  \<longrightarrow> new_pdf_path_of E W p = p)
                \<longrightarrow> (\<forall>src dst. OsRename src dst \<notin> set evs'))"
proof -
  let ?ps = "saved_pdf_paths s"
  have run: "finalize_paths E W ?ps s = (s', evs)"
    using assms(2) by (simp add: finalize_filenames_def)
  have same: "saved_pdf_paths s' = ?ps"
    using finalize_paths_fields [OF run] by simp
  obtain evs' where 2: "finalize_paths E W ?ps s' = (s', evs')"
    and 3: "\<forall>src dst. OsRename src dst \<in> set evs'
        \<longrightarrow> src \<in> set ?ps \<and> dst = new_pdf_path_of E W src \<and> src \<noteq> dst
            \<and> file_of E src = file_of E dst"
    using finalize_paths_twice [OF assms(1) run] by blast
  have a: "finalize_filenames E W s' = (s', evs')"
    using 2 same by (simp add: finalize_filenames_def)
  have b: "\<forall>src dst. OsRename src dst \<in> set evs' \<longrightarrow> file_of E src = file_of E dst"
    using 3 by blast
  have c: "\<forall>src dst. OsRename src dst \<notin> set evs'"
    if h: "\<forall>p \<in> set ?ps. file_of E (new_pdf_path_of E W p) = file_of E p
          \<longrightarrow> new_pdf_path_of E W p = p"
  proof (intro allI notI)
    fix src dst assume "OsRename src dst \<in> set evs'"
    then have "src \<in> set ?ps" "dst = new_pdf_path_of E W src" "src \<noteq> dst"
      "file_of E src = file_of E dst"
      using 3 by blast+
    then show False using h by metis
  qed
  show ?thesis
    using a b c by blast
qed

theorem finalization_idempotent_witness:
  "finalize_filenames (windows never always_converts) colliding_names
     (recorded three_recorded
        {on_drive CHR ''C'' [''out'', ''%20Report.pdf''],
         on_drive CHR ''C'' [''out'', ''a%20b.pdf''],
         on_drive CHR ''C'' [''out'', ''a b.pdf'']})
   = (recorded three_recorded
        {on_drive CHR ''C'' [''out'', '' Report.pdf''],
         on_drive CHR ''C'' [''out'', ''a%20b.pdf''],
         on_drive CHR ''C'' [''out'', ''a b.pdf'']},
      [OsRename (on_drive CHR ''C'' [''out'', ''%20Report.pdf''])
                (on_drive CHR ''C'' [''out'', '' Report.pdf'']),
       ProgressUpdate ''Renamed %20Report.pdf to  Report.pdf'',
       ProgressUpdate
         (''Failed to rename a%20b.pdf: ''
            @ win_strerror FileExistsError
                (on_drive CHR ''C'' [''out'', ''a%20b.pdf''])
                (on_drive CHR ''C'' [''out'', ''a b.pdf'']))])
   \<and> (\<exists>evs'.
         finalize_filenames (windows never always_converts) colliding_names
           (recorded three_recorded
              {on_drive CHR ''C'' [''out'', '' Report.pdf''],
               on_drive CHR ''C'' [''out'', ''a%20b.pdf''],
               on_drive CHR ''C'' [''out'', ''a b.pdf'']})
         = (recorded three_recorded
              {on_drive CHR ''C'' [''out'', '' Report.pdf''],
               on_drive CHR ''C'' [''out'', ''a%20b.pdf''],
               on_drive CHR ''C'' [''out'', ''a b.pdf'']},
            evs')
         \<and> (\<forall>src dst. OsRename src dst \<notin> set evs'))"
proof -
  let ?E = "windows never always_converts"
  let ?s = "recorded three_recorded
        {on_drive CHR ''C'' [''out'', ''%20Report.pdf''],
         on_drive CHR ''C'' [''out'', ''a%20b.pdf''],
         on_drive CHR ''C'' [''out'', ''a b.pdf'']}"
  let ?s' = "recorded three_recorded
        {on_drive CHR ''C'' [''out'', '' Report.pdf''],
         on_drive CHR ''C'' [''out'', ''a%20b.pdf''],
         on_drive CHR ''C'' [''out'', ''a b.pdf'']}"
  let ?evs = "[OsRename (on_drive CHR ''C'' [''out'', ''%20Report.pdf''])
                (on_drive CHR ''C'' [''out'', '' Report.pdf'']),
       ProgressUpdate ''Renamed %20Report.pdf to  Report.pdf'',
       ProgressUpdate
         (''Failed to rename a%20b.pdf: ''
            @ win_strerror FileExistsError
                (on_drive CHR ''C'' [''out'', ''a%20b.pdf''])
                (on_drive CHR ''C'' [''out'', ''a b.pdf'']))]"
  have run: "finalize_filenames ?E colliding_names ?s = (?s', ?evs)"
    by code_simp
  have L: "\<forall>p \<in> set (saved_pdf_paths ?s). \<forall>q \<in> set (saved_pdf_paths ?s).
        file_of ?E q = file_of ?E (new_pdf_path_of ?E colliding_names p)
        \<longrightarrow> file_of ?E (new_pdf_path_of ?E colliding_names q) = file_of ?E q"
    by code_simp
  have U: "\<forall>p \<in> set (saved_pdf_paths ?s).
        file_of ?E (new_pdf_path_of ?E colliding_names p) = file_of ?E p
        \<longrightarrow> new_pdf_path_of ?E colliding_names p = p"
    by code_simp
  show ?thesis
    using finalization_idempotent [OF L run] U run by blast
qed

text \<open>
  C6. Once a read of the flag has returned true, no conversion attempt is started any
  more: the flag is looked at before each file and before each attempt, and an attempt
  runs from its \<open>Workbooks.Open\<close> to its end without a read in between. In a job of three
  files where the cancellation comes in during the retry loop of the second file, that is
  after \<open>j\<close> of its attempts have started and failed and before the next one: the first
  file is fully processed and counted, the second file makes its \<open>j\<close> attempts and aborts
  at the read before the next attempt, the third file is never attempted, and the
  terminal event is the cancellation message.
\<close>

theorem cancellation_stops_attempts:
  "(\<exists>s' tr. convert_files E W (init_state d) = Inr (s', tr) \<and> no_attempt_after_cancel tr)
   \<and> (files W = [f1, f2, f3]
        \<and> convert_file E W 3 f1 ((init_state d)\<lparr>reads := 1\<rparr>) = Inr (s1, evs1)
        \<and> 0 < j \<and> int j < retries W
        \<and> cancel_requested E (reads s1 + 1 + j)
        \<and> (\<forall>i < reads s1 + 1 + j. \<not> cancel_requested E i)
        \<and> (\<forall>i < j. engine E (attempts s1 + i) f2 \<noteq> Converted)
      \<longrightarrow>
        (\<exists>s' pre v mid fin.
           convert_files E W (init_state d)
             = Inr (s',
                    [CoInitialize, Dispatch ''Excel.Application'', SetVisible False,
                     IsCancelled False] @ evs1
                    @ [IsCancelled False] @ reset_permissions E f2 @ mid
                    @ [IsCancelled True, IsCancelled True, IsCancelled True,
                       IsCancelled True, ProgressUpdate ''Conversion cancelled by user.'',
                       Quit, CoUninitialize] @ fin
                    @ [IsCancelled True, ConversionComplete ''Conversion cancelled.''])
           \<and> evs1 = pre @ [IsCancelled False, Progress v] \<and> processed_files s1 = 1
           \<and> length (filter is_attempt mid) = j \<and> IsCancelled True \<notin> set mid
           \<and> attempts s' = attempts s1 + j \<and> processed_files s' = 1
           \<and> list_all finalize_event fin))"
proof (intro conjI impI)
  obtain s' tr where r: "convert_files E W (init_state d) = Inr (s', tr)"
    using convert_files_parts [of E W "init_state d"] by metis
  have "no_attempt_after_cancel tr"
    using convert_files_honours [OF r] by (simp add: honours_flag_def)
  then show "\<exists>s' tr. convert_files E W (init_state d) = Inr (s', tr) \<and> no_attempt_after_cancel tr"
    using r by blast
next
  assume a: "files W = [f1, f2, f3]
        \<and> convert_file E W 3 f1 ((init_state d)\<lparr>reads := 1\<rparr>) = Inr (s1, evs1)
        \<and> 0 < j \<and> int j < retries W
        \<and> cancel_requested E (reads s1 + 1 + j)
        \<and> (\<forall>i < reads s1 + 1 + j. \<not> cancel_requested E i)
        \<and> (\<forall>i < j. engine E (attempts s1 + i) f2 \<noteq> Converted)"
  show "\<exists>s' pre v mid fin.
           convert_files E W (init_state d)
             = Inr (s',
                    [CoInitialize, Dispatch ''Excel.Application'', SetVisible False,
                     IsCancelled False] @ evs1
                    @ [IsCancelled False] @ reset_permissions E f2 @ mid
                    @ [IsCancelled True, IsCancelled True, IsCancelled True,
                       IsCancelled True, ProgressUpdate ''Conversion cancelled by user.'',
                       Quit, CoUninitialize] @ fin
                    @ [IsCancelled True, ConversionComplete ''Conversion cancelled.''])
           \<and> evs1 = pre @ [IsCancelled False, Progress v] \<and> processed_files s1 = 1
           \<and> length (filter is_attempt mid) = j \<and> IsCancelled True \<notin> set mid
           \<and> attempts s' = attempts s1 + j \<and> processed_files s' = 1
           \<and> list_all finalize_event fin"
    by (rule cancelled_mid_retry) (use a in blast)+
qed

theorem cancellation_stops_attempts_witness:
  "cancel_requested (windows (from_read 5) only_first_converts) 5
   \<and> list_all (\<lambda>i. \<not> cancel_requested (windows (from_read 5) only_first_converts) i) [0..<5]
   \<and> (\<exists>s' mid fin.
         convert_files (windows (from_read 5) only_first_converts) three_files (init_state {})
           = Inr (s',
                  [CoInitialize, Dispatch ''Excel.Application'', SetVisible False,
                   IsCancelled False,
                   Chmod (on_drive CHR ''C'' [''in'', ''a.xlsx'']),
                   IsCancelled False,
                   ProgressUpdate ''Attempting conversion (1/3) for: a.xlsx'',
                   WorkbooksOpen (on_drive CHR ''C'' [''in'', ''a.xlsx'']),
                   ExportAsFixedFormat (on_drive CHR ''C'' [''out'', ''a.pdf'']),
                   WorkbookClose,
                   ProgressUpdate
                     (''Successfully converted: a.xlsx to PDF at ''
                        @ on_drive CHR ''C'' [''out'', ''a.pdf'']),
                   IsCancelled False, Progress 33,
                   IsCancelled False,
                   Chmod (on_drive CHR ''C'' [''in'', ''b.xlsx''])]
                  @ mid
                  @ [IsCancelled True, IsCancelled True, IsCancelled True,
                     IsCancelled True, ProgressUpdate ''Conversion cancelled by user.'',
                     Quit, CoUninitialize] @ fin
                  @ [IsCancelled True, ConversionComplete ''Conversion cancelled.''])
         \<and> length (filter is_attempt mid) = 1 \<and> IsCancelled True \<notin> set mid
         \<and> attempts s' = 2 \<and> processed_files s' = 1)"
proof -
  let ?E = "windows (from_read 5) only_first_converts"
  let ?fa = "on_drive CHR ''C'' [''in'', ''a.xlsx'']"
  let ?fb = "on_drive CHR ''C'' [''in'', ''b.xlsx'']"
  let ?fc = "on_drive CHR ''C'' [''in'', ''c.xlsx'']"
  let ?s1 = "\<lparr>cancelled = False,
             saved_pdf_paths = [on_drive CHR ''C'' [''out'', ''a.pdf'']],
             processed_files = 1,
             disk = {on_drive CHR ''C'' [''out'', ''a.pdf'']},
             reads = 3, attempts = 1\<rparr>"
  let ?evs1 = "[Chmod ?fa,
                IsCancelled False,
                ProgressUpdate ''Attempting conversion (1/3) for: a.xlsx'',
                WorkbooksOpen ?fa,
                ExportAsFixedFormat (on_drive CHR ''C'' [''out'', ''a.pdf'']),
                WorkbookClose,
                ProgressUpdate
                  (''Successfully converted: a.xlsx to PDF at ''
                     @ on_drive CHR ''C'' [''out'', ''a.pdf'']),
                IsCancelled False, Progress 33]"
  have files: "files three_files = [?fa, ?fb, ?fc]"
    by (simp add: three_files_def ConversionWorker_def)
  have first: "convert_file ?E three_files 3 ?fa ((init_state {})\<lparr>reads := 1\<rparr>)
      = Inr (?s1, ?evs1)"
    by code_simp
  have j: "0 < (1::nat)" "int 1 < retries three_files"
    by (simp_all add: three_files_def ConversionWorker_def)
  have req: "cancel_requested ?E (reads ?s1 + 1 + 1)"
    by (simp add: windows_def from_read_def)
  have noreq: "\<forall>i < reads ?s1 + 1 + 1. \<not> cancel_requested ?E i"
    by (simp add: windows_def from_read_def)
  have fails: "\<forall>i < 1. engine ?E (attempts ?s1 + i) ?fb \<noteq> Converted"
    by (simp add: windows_def only_first_converts_def)
  have perm: "reset_permissions ?E ?fb = [Chmod ?fb]"
    by (simp add: reset_permissions_def windows_def)
  have h1: "cancel_requested ?E 5" using req by simp
  have h2: "list_all (\<lambda>i. \<not> cancel_requested ?E i) [0..<5]"
    using noreq by (simp add: list_all_iff)
  obtain s' pre v mid fin where c:
    "convert_files ?E three_files (init_state {})
       = Inr (s',
              [CoInitialize, Dispatch ''Excel.Application'', SetVisible False,
               IsCancelled False] @ ?evs1
              @ [IsCancelled False] @ reset_permissions ?E ?fb @ mid
              @ [IsCancelled True, IsCancelled True, IsCancelled True,
                 IsCancelled True, ProgressUpdate ''Conversion cancelled by user.'',
                 Quit, CoUninitialize] @ fin
              @ [IsCancelled True, ConversionComplete ''Conversion cancelled.''])"
    "length (filter is_attempt mid) = 1" "IsCancelled True \<notin> set mid"
    "attempts s' = attempts ?s1 + 1" "processed_files s' = 1"
    using cancellation_stops_attempts [of ?E three_files "{}" ?fa ?fb ?fc ?s1 ?evs1 1]
      files first j req noreq fails by blast
  show ?thesis
    using h1 h2 c unfolding perm by (intro conjI exI [of _ s'] exI [of _ mid] exI [of _ fin]) simp_all
qed

text \<open>
  C7. When the cancellation has come in before the first read of the flag, no file is
  attempted: there is no call on the spreadsheet application between \<open>Dispatch\<close> and
  \<open>Quit\<close>, no file is counted as processed or reported as failed, nothing is recorded as
  saved. Finalization still runs, over the empty list of recorded paths, and the terminal
  event is the cancellation message.
\<close>

theorem cancelled_before_start:
  assumes "cancel_requested E 0"
  shows "\<exists>s'. convert_files E W (init_state d)
           = Inr (s',
                  [CoInitialize, Dispatch ''Excel.Application'', SetVisible False]
                   @ (if files W = [] then []
                      else [IsCancelled True, ProgressUpdate ''Conversion cancelled by user.''])
                   @ [Quit, CoUninitialize]
                   @ [IsCancelled True, ConversionComplete ''Conversion cancelled.''])
         \<and> attempts s' = 0 \<and> processed_files s' = 0 \<and> saved_pdf_paths s' = []
         \<and> disk s' = d \<and> cancelled s'
         \<and> finalize_filenames E W s' = (s', [])"
proof (cases "files W")
  case Nil
  then show ?thesis using assms
    by (simp add: convert_files_def finalize_filenames_def init_state_def is_cancelled_eq
        terminal_message_def msg_cancelled_def)
next
  case (Cons f fs)
  then show ?thesis using assms
    by (simp add: convert_files_def finalize_filenames_def init_state_def is_cancelled_eq
        terminal_message_def msg_cancelled_def msg_cancelled_by_user_def)
qed

theorem cancelled_before_start_witness:
  "cancel_requested (windows (\<lambda>n. True) always_converts) 0
   \<and> (\<exists>s'. convert_files (windows (\<lambda>n. True) always_converts) three_files (init_state {})
           = Inr (s',
                  [CoInitialize, Dispatch ''Excel.Application'', SetVisible False,
                   IsCancelled True, ProgressUpdate ''Conversion cancelled by user.'',
                   Quit, CoUninitialize,
                   IsCancelled True, ConversionComplete ''Conversion cancelled.''])
         \<and> attempts s' = 0 \<and> processed_files s' = 0 \<and> saved_pdf_paths s' = [])"
proof -
  have h: "cancel_requested (windows (\<lambda>n. True) always_converts) 0"
    by (simp add: windows_def)
  have f: "files three_files \<noteq> []"
    by (simp add: three_files_def ConversionWorker_def)
  show ?thesis
    using cancelled_before_start [OF h, of three_files "{}"] h f by auto
qed

text \<open>
  C8, as the code has it. For one file the retry loop makes at most \<open>retries\<close> attempts
  (3 by default), stops at the first attempt that succeeds, and waits one second after
  every failed attempt, the last one included: the wait is part of the \<^verbatim>\<open>except\<close> branch
  and is made whether or not an attempt follows. When no attempt succeeded and the flag is
  not set at line 80, all \<open>retries\<close> attempts have been made and exactly one failure line
  is emitted, with no attempt after it.
\<close>

theorem retry_limit:
  assumes "retry_loop E W file file_name pdf_path [1..retries W] s = (ok, s1, evs)"
    and "report_failure E W file_name ok s1 = (s2, evs2)"
  shows "int (attempts s1 - attempts s) \<le> max 0 (retries W)
       \<and> length (filter is_attempt evs) = attempts s1 - attempts s
       \<and> (ok \<longrightarrow> engine E (attempts s1 - 1) file = Converted
                \<and> last evs = ProgressUpdate (msg_converted file_name pdf_path))
       \<and> (\<forall>i. attempts s \<le> i \<and> i < attempts s1 - (if ok then 1 else 0)
              \<longrightarrow> engine E i file \<noteq> Converted)
       \<and> count_list evs (Sleep 1) = attempts s1 - attempts s - (if ok then 1 else 0)
       \<and> (\<not> ok \<and> \<not> cancelled s2 \<longrightarrow>
             int (attempts s1 - attempts s) = max 0 (retries W)
             \<and> evs2 = [IsCancelled False, ProgressUpdate (msg_failed file_name (retries W))])
       \<and> (ok \<or> cancelled s2 \<longrightarrow> (\<forall>m. ProgressUpdate m \<notin> set evs2))
       \<and> attempts s2 = attempts s1
       \<and> retries (ConversionWorker fs dir) = 3"
proof -
  note r = retry_loop_attempts [OF assms(1)]
  have len: "int (length [1..retries W]) = max 0 (retries W)" by simp
  have 1: "int (attempts s1 - attempts s) \<le> max 0 (retries W)"
    using r len by linarith
  have c: "cancelled s1 \<longrightarrow> cancelled s2"
    using report_failure_fields [OF assms(2)] by simp
  have 6: "\<not> ok \<and> \<not> cancelled s2 \<longrightarrow>
             int (attempts s1 - attempts s) = max 0 (retries W)
             \<and> evs2 = [IsCancelled False, ProgressUpdate (msg_failed file_name (retries W))]"
  proof
    assume a: "\<not> ok \<and> \<not> cancelled s2"
    then have "\<not> cancelled s1" using c by blast
    then have "attempts s1 - attempts s = length [1..retries W]" using r a by blast
    then have "int (attempts s1 - attempts s) = max 0 (retries W)" using len by simp
    moreover have "evs2 = [IsCancelled False, ProgressUpdate (msg_failed file_name (retries W))]"
      using assms(2) a by (auto simp: report_failure_def is_cancelled_eq split: if_splits)
    ultimately show "int (attempts s1 - attempts s) = max 0 (retries W)
             \<and> evs2 = [IsCancelled False, ProgressUpdate (msg_failed file_name (retries W))]"
      by blast
  qed
  have 7: "ok \<or> cancelled s2 \<longrightarrow> (\<forall>m. ProgressUpdate m \<notin> set evs2)"
    using assms(2) by (auto simp: report_failure_def is_cancelled_eq split: if_splits)
  have 8: "attempts s2 = attempts s1"
    using report_failure_fields [OF assms(2)] by simp
  have 9: "retries (ConversionWorker fs dir) = 3" by (simp add: ConversionWorker_def)
  show ?thesis using r 1 6 7 8 9 by blast
qed

theorem wait_after_last_failed_attempt:
  "convert_files (windows never never_converts) one_file (init_state {})
     = Inr (\<lparr>cancelled = False, saved_pdf_paths = [], processed_files = 1, disk = {},
             reads = 7, attempts = 3\<rparr>,
            [CoInitialize, Dispatch ''Excel.Application'', SetVisible False,
             IsCancelled False,
             Chmod (on_drive CHR ''C'' [''in'', ''a.xlsx'']),
             IsCancelled False,
             ProgressUpdate ''Attempting conversion (1/3) for: a.xlsx'',
             WorkbooksOpen (on_drive CHR ''C'' [''in'', ''a.xlsx'']),
             LoggingError ''Attempt 1: Failed to convert a.xlsx - Excel is busy'',
             ProgressUpdate ''Attempt 1: Error converting a.xlsx - Excel is busy'',
             Sleep 1,
             IsCancelled False,
             ProgressUpdate ''Attempting conversion (2/3) for: a.xlsx'',
             WorkbooksOpen (on_drive CHR ''C'' [''in'', ''a.xlsx'']),
             LoggingError ''Attempt 2: Failed to convert a.xlsx - Excel is busy'',
             ProgressUpdate ''Attempt 2: Error converting a.xlsx - Excel is busy'',
             Sleep 1,
             IsCancelled False,
             ProgressUpdate ''Attempting conversion (3/3) for: a.xlsx'',
             WorkbooksOpen (on_drive CHR ''C'' [''in'', ''a.xlsx'']),
             LoggingError ''Attempt 3: Failed to convert a.xlsx - Excel is busy'',
             ProgressUpdate ''Attempt 3: Error converting a.xlsx - Excel is busy'',
             Sleep 1,
             IsCancelled False,
             ProgressUpdate ''Failed to convert a.xlsx after 3 attempts.'',
             IsCancelled False,
             Progress 100,
             Quit, CoUninitialize,
             IsCancelled False,
             ConversionComplete ''All files processed.''])"
  by code_simp

theorem retry_limit_witness:
  "\<exists>ok s1 evs s2 evs2.
     retry_loop (windows never never_converts) one_file (on_drive CHR ''C'' [''in'', ''a.xlsx''])
       ''a.xlsx'' (on_drive CHR ''C'' [''out'', ''a.pdf'']) [1..retries one_file] (init_state {})
       = (ok, s1, evs)
     \<and> report_failure (windows never never_converts) one_file ''a.xlsx'' ok s1 = (s2, evs2)
     \<and> \<not> ok \<and> \<not> cancelled s2
     \<and> attempts s1 = 3 \<and> length (filter is_attempt evs) = 3 \<and> count_list evs (Sleep 1) = 3
     \<and> evs2 = [IsCancelled False, ProgressUpdate ''Failed to convert a.xlsx after 3 attempts.'']"
proof -
  let ?E = "windows never never_converts"
  let ?f = "on_drive CHR ''C'' [''in'', ''a.xlsx'']"
  let ?p = "on_drive CHR ''C'' [''out'', ''a.pdf'']"
  obtain ok s1 evs where r:
    "retry_loop ?E one_file ?f ''a.xlsx'' ?p [1..retries one_file] (init_state {}) = (ok, s1, evs)"
    by (metis prod_cases3)
  obtain s2 evs2 where f: "report_failure ?E one_file ''a.xlsx'' ok s1 = (s2, evs2)"
    by (metis surj_pair)
  have nc: "\<forall>n. engine ?E n ?f \<noteq> Converted" "\<forall>n. \<not> cancel_requested ?E n"
    by (simp_all add: windows_def never_converts_def never_def)
  have ok: "\<not> ok"
    using retry_loop_never_converted [OF nc(1), of one_file "''a.xlsx''" ?p
        "[1..retries one_file]" "init_state {}"] r by auto
  have c1: "\<not> cancelled s1"
    using flag_follows_no_request [OF retry_loop_follows [OF r]] nc(2)
    by (simp add: init_state_def)
  have c2: "\<not> cancelled s2"
    using flag_follows_no_request [OF report_failure_follows [OF f]] nc(2) c1 by simp
  have three: "retries one_file = 3" "attempts (init_state {}) = 0"
    by (simp_all add: one_file_def ConversionWorker_def init_state_def)
  have m: "msg_failed ''a.xlsx'' 3 = ''Failed to convert a.xlsx after 3 attempts.''"
    by code_simp
  show ?thesis
    using retry_limit [OF r f] r f ok c2 three m by auto
qed

text \<open>
  C9. The spreadsheet application is acquired once, by the \<open>Dispatch\<close> at the start of
  the run, and released once, by the \<open>Quit\<close> after the loop over the files, on every
  run: whether the files were converted, all failed, or the run was cancelled. The
  release comes before the events of finalization and before the terminal event.
\<close>

theorem engine_acquired_and_released_once:
  "\<exists>s1 body s2 fin c s3 tr.
     files_loop E W (length (files W)) (files W) (init_state d) = Inr (s1, body)
     \<and> finalize_filenames E W s1 = (s2, fin)
     \<and> tr = [CoInitialize, Dispatch ''Excel.Application'', SetVisible False]
              @ body @ [Quit, CoUninitialize] @ fin
              @ [IsCancelled c, ConversionComplete (terminal_message c)]
     \<and> convert_files E W (init_state d) = Inr (s3, tr)
     \<and> count_list tr Quit = 1
     \<and> (\<forall>a. count_list tr (Dispatch a) = (if a = ''Excel.Application'' then 1 else 0))
     \<and> list_all loop_event body \<and> list_all finalize_event fin"
proof -
  obtain s1 body s2 fin c s3 where p:
    "files_loop E W (length (files W)) (files W) (init_state d) = Inr (s1, body)"
    "finalize_filenames E W s1 = (s2, fin)"
    "is_cancelled E s2 = (c, s3)"
    "convert_files E W (init_state d) =
       Inr (s3, [CoInitialize, Dispatch ''Excel.Application'', SetVisible False]
                 @ body @ [Quit, CoUninitialize] @ fin
                 @ [IsCancelled c, ConversionComplete (terminal_message c)])"
    by (rule convert_files_parts)
  define tr where "tr = [CoInitialize, Dispatch ''Excel.Application'', SetVisible False]
                 @ body @ [Quit, CoUninitialize] @ fin
                 @ [IsCancelled c, ConversionComplete (terminal_message c)]"
  have b: "list_all loop_event body" using p(1) by (rule files_loop_events)
  have f: "list_all finalize_event fin"
    using p(2) unfolding finalize_filenames_def by (rule finalize_paths_events)
  have q: "count_list tr Quit = 1"
    unfolding tr_def using loop_event_count(1) [OF b] finalize_event_count(1) [OF f] by simp
  have d: "count_list tr (Dispatch a) = (if a = ''Excel.Application'' then 1 else 0)" for a
    unfolding tr_def using loop_event_count(2) [OF b] finalize_event_count(2) [OF f] by simp
  show ?thesis
    using p(1,2) p(4) [folded tr_def] tr_def q d b f by blast
qed

theorem engine_acquired_and_released_once_witness:
  "\<exists>s1 body s2 fin c s3 tr.
     files_loop (windows (\<lambda>n. 2 \<le> n) budget_fails) two_files (length (files two_files))
       (files two_files) (init_state {}) = Inr (s1, body)
     \<and> finalize_filenames (windows (\<lambda>n. 2 \<le> n) budget_fails) two_files s1 = (s2, fin)
     \<and> tr = [CoInitialize, Dispatch ''Excel.Application'', SetVisible False]
              @ body @ [Quit, CoUninitialize] @ fin
              @ [IsCancelled c, ConversionComplete (terminal_message c)]
     \<and> convert_files (windows (\<lambda>n. 2 \<le> n) budget_fails) two_files (init_state {}) = Inr (s3, tr)
     \<and> count_list tr Quit = 1
     \<and> (\<forall>a. count_list tr (Dispatch a) = (if a = ''Excel.Application'' then 1 else 0))
     \<and> list_all loop_event body \<and> list_all finalize_event fin"
  by (rule engine_acquired_and_released_once)

text \<open>
  C10. For an empty list of files and no cancellation the run ends without an error: the
  percentage of line 85, whose division would raise for a total of zero, is never
  computed. The run emits no progress value, finalization runs over the empty list of
  recorded paths, and the terminal event is \<^verbatim>\<open>All files processed.\<close>.
\<close>

theorem empty_job_completes:
  assumes "files W = []" "\<not> cancel_requested E 0"
  shows "convert_files E W (init_state d)
           = Inr ((init_state d)\<lparr>reads := 1\<rparr>,
                  [CoInitialize, Dispatch ''Excel.Application'', SetVisible False,
                   Quit, CoUninitialize,
                   IsCancelled False, ConversionComplete ''All files processed.''])
         \<and> finalize_filenames E W (init_state d) = (init_state d, [])
         \<and> progress_percent k (length (files W)) = Inl ZeroDivisionError"
  using assms
  by (simp add: convert_files_def finalize_filenames_def init_state_def is_cancelled_eq
      terminal_message_def msg_all_processed_def progress_percent_zero_total)

theorem empty_job_completes_witness:
  "files (ConversionWorker [] ''out'') = [] \<and> \<not> cancel_requested (windows never always_converts) 0
   \<and> convert_files (windows never always_converts) (ConversionWorker [] ''out'') (init_state {})
       = Inr ((init_state {})\<lparr>reads := 1\<rparr>,
              [CoInitialize, Dispatch ''Excel.Application'', SetVisible False,
               Quit, CoUninitialize,
               IsCancelled False, ConversionComplete ''All files processed.''])"
  using empty_job_completes [of "ConversionWorker [] ''out''" "windows never always_converts" "{}" 0]
  by (simp add: ConversionWorker_def windows_def never_def)


end
